theory Spec2Isabelle
  imports Main
begin

section \<open>The Go standard library, as parameters\<close>

text \<open>
  The interpreter of \<^verbatim>\<open>main.go\<close> calls into Go's standard library: \<^verbatim>\<open>strconv.ParseFloat\<close>,
  the \<^verbatim>\<open>%v\<close>/\<^verbatim>\<open>%g\<close> verbs of \<^verbatim>\<open>fmt\<close> on a \<^verbatim>\<open>float64\<close>, the arithmetic and the order of
  \<^verbatim>\<open>float64\<close>, \<^verbatim>\<open>json.Unmarshal\<close>, and the operating system (\<^verbatim>\<open>exec.Command(...).Run\<close>,
  \<^verbatim>\<open>os.WriteFile\<close>, \<^verbatim>\<open>os.MkdirAll\<close>, \<^verbatim>\<open>os.ReadFile\<close>). None of that is code of the
  repository, so the model takes it as a parameter: a record \<open>h\<close> of functions over a type
  \<open>'f\<close> that stands for \<^verbatim>\<open>float64\<close>. Every theorem holds for every such record.
\<close>

text \<open>A call that leaves the process, with its arguments.\<close>

datatype syscall =
  Exec string "string list"      \<comment> \<open>\<^verbatim>\<open>exec.Command(name, args...).Run()\<close>\<close>
| WriteFile string string nat    \<comment> \<open>\<^verbatim>\<open>os.WriteFile(path, content, perm)\<close>\<close>
| MkdirAll string nat            \<comment> \<open>\<^verbatim>\<open>os.MkdirAll(path, perm)\<close>\<close>
| ReadFile string                \<comment> \<open>\<^verbatim>\<open>os.ReadFile(path)\<close>\<close>

text \<open>
  A Go \<^verbatim>\<open>error\<close>: one that the operating system or a child process reports, or one built
  by \<^verbatim>\<open>fmt.Errorf("<prefix>: %w", err)\<close>. \<open>Panic\<close> is not an \<^verbatim>\<open>error\<close> of Go but a run-time
  panic; no function of the program recovers from one, so it ends a run the way an error
  that nothing wraps does, and the model carries it in the same place.
\<close>

datatype error =
  OSError string
| Errorf string error
| Panic string

record 'f host =
  ParseFloat :: "string \<Rightarrow> 'f \<times> bool"
    \<comment> \<open>\<^verbatim>\<open>strconv.ParseFloat(s, 64)\<close>: the value, and whether \<^verbatim>\<open>err == nil\<close>\<close>
  FormatFloat :: "'f \<Rightarrow> string"
    \<comment> \<open>\<^verbatim>\<open>fmt.Sprintf("%v", x)\<close>, which is \<^verbatim>\<open>fmt.Sprintf("%g", x)\<close>, of a \<^verbatim>\<open>float64\<close>\<close>
  f_zero :: 'f
  f_one :: 'f
  f_add :: "'f \<Rightarrow> 'f \<Rightarrow> 'f"
  f_sub :: "'f \<Rightarrow> 'f \<Rightarrow> 'f"
  f_lt :: "'f \<Rightarrow> 'f \<Rightarrow> bool"
  f_le :: "'f \<Rightarrow> 'f \<Rightarrow> bool"
  json_Unmarshal :: "string \<Rightarrow> (string \<rightharpoonup> string) option"
    \<comment> \<open>\<^verbatim>\<open>json.Unmarshal\<close> into a \<^verbatim>\<open>map[string]string\<close>; \<open>None\<close> when \<^verbatim>\<open>err != nil\<close>\<close>
  os_call :: "syscall list \<Rightarrow> syscall \<Rightarrow> error + string"
    \<comment> \<open>the outcome of a call, given the calls made before it: an error, or what the
        call returns (the content read, for \<^verbatim>\<open>os.ReadFile\<close>)\<close>

section \<open>Formatting\<close>

text \<open>UTF-8 of the symbols the log lines use.\<close>

definition u_arrow :: string where "u_arrow = [CHR 0xE2, CHR 0x86, CHR 0x92]"
definition u_warn :: string where "u_warn = [CHR 0xE2, CHR 0x9A, CHR 0xA0]"
definition u_check :: string where "u_check = [CHR 0xE2, CHR 0x9C, CHR 0x93]"
definition u_dbl :: string where "u_dbl = [CHR 0xE2, CHR 0x95, CHR 0x90]"
definition u_dbl_v :: string where "u_dbl_v = [CHR 0xE2, CHR 0x95, CHR 0x91]"
definition u_dbl_tl :: string where "u_dbl_tl = [CHR 0xE2, CHR 0x95, CHR 0x94]"
definition u_dbl_tr :: string where "u_dbl_tr = [CHR 0xE2, CHR 0x95, CHR 0x97]"
definition u_dbl_bl :: string where "u_dbl_bl = [CHR 0xE2, CHR 0x95, CHR 0x9A]"
definition u_dbl_br :: string where "u_dbl_br = [CHR 0xE2, CHR 0x95, CHR 0x9D]"
definition u_sgl :: string where "u_sgl = [CHR 0xE2, CHR 0x94, CHR 0x80]"
definition u_sgl_v :: string where "u_sgl_v = [CHR 0xE2, CHR 0x94, CHR 0x82]"
definition u_sgl_tl :: string where "u_sgl_tl = [CHR 0xE2, CHR 0x94, CHR 0x8C]"
definition u_sgl_tr :: string where "u_sgl_tr = [CHR 0xE2, CHR 0x94, CHR 0x90]"
definition u_sgl_bl :: string where "u_sgl_bl = [CHR 0xE2, CHR 0x94, CHR 0x94]"
definition u_sgl_br :: string where "u_sgl_br = [CHR 0xE2, CHR 0x94, CHR 0x98]"

text \<open>\<^verbatim>\<open>strings.Join\<close>.\<close>

fun Join :: "string list \<Rightarrow> string \<Rightarrow> string" where
  "Join [] sep = []"
| "Join [x] sep = x"
| "Join (x # y # ys) sep = x @ sep @ Join (y # ys) sep"

text \<open>The verb \<^verbatim>\<open>%d\<close> of \<^verbatim>\<open>fmt\<close> on an \<^verbatim>\<open>int\<close>.\<close>

function showNat :: "nat \<Rightarrow> string" where
  "showNat n = (if n < 10 then [''0123456789'' ! n]
                else showNat (n div 10) @ [''0123456789'' ! (n mod 10)])"
  by pat_completeness auto
termination
  by (relation "measure id") auto

definition showInt :: "int \<Rightarrow> string" where
  "showInt i = (if i < 0 then CHR ''-'' # showNat (nat (- i)) else showNat (nat i))"

section \<open>Tokens and the lexer\<close>

datatype TokenType =
  TOKEN_EOF
| TOKEN_IDENTIFIER
| TOKEN_STRING
| TOKEN_NUMBER
| TOKEN_BOOLEAN
| TOKEN_ASSIGN
| TOKEN_LBRACE
| TOKEN_RBRACE
| TOKEN_LBRACKET
| TOKEN_RBRACKET
| TOKEN_COMMA
| TOKEN_DOT
| TOKEN_EQ
| TOKEN_NEQ
| TOKEN_LT
| TOKEN_GT
| TOKEN_LTE
| TOKEN_GTE
| TOKEN_PLUS
| TOKEN_MINUS
| TOKEN_PLUSPLUS
| TOKEN_MINUSMINUS
| TOKEN_IF
| TOKEN_ELSE
| TOKEN_REPEAT
| TOKEN_ASK
| TOKEN_BEFORE
| TOKEN_AFTER
| TOKEN_SHELL
| TOKEN_NEWLINE

record Token =
  Type :: TokenType
  Literal :: string
  Line :: nat
  Column :: nat

text \<open>
  The struct \<^verbatim>\<open>Lexer\<close>. The input is a string of bytes; \<^verbatim>\<open>ch\<close> is 0 at the end of the input.
\<close>

record Lexer =
  input :: string
  pos :: nat
  readPos :: nat
  ch :: char
  line :: nat
  column :: nat

definition readChar :: "Lexer \<Rightarrow> Lexer" where
  "readChar l =
     (let l1 = (if readPos l \<ge> length (input l) then l\<lparr>ch := CHR 0x00\<rparr>
                else l\<lparr>ch := input l ! readPos l\<rparr>);
          l2 = l1\<lparr>pos := readPos l1\<rparr>;
          l3 = l2\<lparr>readPos := readPos l2 + 1\<rparr>;
          l4 = l3\<lparr>column := column l3 + 1\<rparr>
      in if ch l4 = CHR 0x0A then l4\<lparr>line := line l4 + 1, column := 0\<rparr> else l4)"

definition NewLexer :: "string \<Rightarrow> Lexer" where
  "NewLexer inp =
     readChar \<lparr>input = inp, pos = 0, readPos = 0, ch = CHR 0x00, line = 1, column = 0\<rparr>"

definition peekChar :: "Lexer \<Rightarrow> char" where
  "peekChar l = (if readPos l \<ge> length (input l) then CHR 0x00 else input l ! readPos l)"

text \<open>
  \<^verbatim>\<open>unicode.IsLetter\<close> and \<^verbatim>\<open>unicode.IsDigit\<close> on \<^verbatim>\<open>rune(ch)\<close> for a byte \<^verbatim>\<open>ch\<close>, that is on a
  code point below 256: the letters of Latin-1, and the digits 0 to 9.
\<close>

definition IsLetter :: "char \<Rightarrow> bool" where
  "IsLetter c =
     (let n = (of_char c :: nat) in
      (65 \<le> n \<and> n \<le> 90) \<or> (97 \<le> n \<and> n \<le> 122) \<or> n = 170 \<or> n = 181 \<or> n = 186 \<or>
      (192 \<le> n \<and> n \<le> 214) \<or> (216 \<le> n \<and> n \<le> 246) \<or> (248 \<le> n \<and> n \<le> 255))"

definition IsDigit :: "char \<Rightarrow> bool" where
  "IsDigit c = (48 \<le> (of_char c :: nat) \<and> (of_char c :: nat) \<le> 57)"

definition isLetter :: "char \<Rightarrow> bool" where
  "isLetter c = (IsLetter c \<or> c = CHR ''_'')"

definition isDigit :: "char \<Rightarrow> bool" where
  "isDigit c = IsDigit c"

text \<open>
  The loops of the lexer stop at the byte 0, which \<^verbatim>\<open>readChar\<close> gives at the end of the input
  and from then on; so each of them ends.
\<close>

definition unreadBytes :: "Lexer \<Rightarrow> nat" where
  "unreadBytes l = (length (input l) + 1 - readPos l) + (if ch l = CHR 0x00 then 0 else 1)"

function skipWhitespace :: "Lexer \<Rightarrow> Lexer" where
  "skipWhitespace l =
     (if ch l = CHR '' '' \<or> ch l = CHR 0x09 \<or> ch l = CHR 0x0D then skipWhitespace (readChar l)
      else l)"
  by pat_completeness auto
termination
  by (relation "measure unreadBytes") (auto simp add: unreadBytes_def readChar_def Let_def)

declare skipWhitespace.simps [simp del]

text \<open>The loop of \<^verbatim>\<open>skipComment\<close>, and \<^verbatim>\<open>skipComment\<close>.\<close>

function skipToLineEnd :: "Lexer \<Rightarrow> Lexer" where
  "skipToLineEnd l =
     (if ch l \<noteq> CHR 0x0A \<and> ch l \<noteq> CHR 0x00 then skipToLineEnd (readChar l) else l)"
  by pat_completeness auto
termination
  by (relation "measure unreadBytes") (auto simp add: unreadBytes_def readChar_def Let_def)

declare skipToLineEnd.simps [simp del]

definition skipComment :: "Lexer \<Rightarrow> Lexer" where
  "skipComment l = (if ch l = CHR ''#'' then skipToLineEnd l else l)"

text \<open>
  The slice \<^verbatim>\<open>s[a:b]\<close>. \<^verbatim>\<open>readString\<close>, \<^verbatim>\<open>readIdentifier\<close> and \<^verbatim>\<open>readNumber\<close> take it from the
  position where they started to the position where their loops stopped.
\<close>

definition slice :: "string \<Rightarrow> nat \<Rightarrow> nat \<Rightarrow> string" where
  "slice s a b = take (b - a) (drop a s)"

function readStringLoop :: "Lexer \<Rightarrow> Lexer" where
  "readStringLoop l =
     (if ch l \<noteq> CHR 0x22 \<and> ch l \<noteq> CHR 0x00 then readStringLoop (readChar l) else l)"
  by pat_completeness auto
termination
  by (relation "measure unreadBytes") (auto simp add: unreadBytes_def readChar_def Let_def)

declare readStringLoop.simps [simp del]

definition readString :: "Lexer \<Rightarrow> string \<times> Lexer" where
  "readString l0 =
     (let l1 = readChar l0;
          start = pos l1;
          l2 = readStringLoop l1;
          str = slice (input l2) start (pos l2)
      in (str, readChar l2))"

function readIdentifierLoop :: "Lexer \<Rightarrow> Lexer" where
  "readIdentifierLoop l =
     (if isLetter (ch l) \<or> isDigit (ch l) \<or> ch l = CHR ''-'' \<or> ch l = CHR ''_''
      then readIdentifierLoop (readChar l) else l)"
  by pat_completeness auto
termination
  by (relation "measure unreadBytes")
     (auto simp add: unreadBytes_def readChar_def Let_def isLetter_def IsLetter_def isDigit_def
        IsDigit_def)

declare readIdentifierLoop.simps [simp del]

definition readIdentifier :: "Lexer \<Rightarrow> string \<times> Lexer" where
  "readIdentifier l =
     (let start = pos l; l' = readIdentifierLoop l in (slice (input l') start (pos l'), l'))"

function readDigits :: "Lexer \<Rightarrow> Lexer" where
  "readDigits l = (if isDigit (ch l) then readDigits (readChar l) else l)"
  by pat_completeness auto
termination
  by (relation "measure unreadBytes")
     (auto simp add: unreadBytes_def readChar_def Let_def isDigit_def IsDigit_def)

declare readDigits.simps [simp del]

definition readNumber :: "Lexer \<Rightarrow> string \<times> Lexer" where
  "readNumber l =
     (let start = pos l;
          l1 = readDigits l;
          l2 = (if ch l1 = CHR ''.'' \<and> isDigit (peekChar l1) then readDigits (readChar l1) else l1)
      in (slice (input l2) start (pos l2), l2))"

definition lookupKeyword :: "string \<Rightarrow> TokenType" where
  "lookupKeyword ident =
     (if ident = ''if'' then TOKEN_IF
      else if ident = ''else'' then TOKEN_ELSE
      else if ident = ''repeat'' then TOKEN_REPEAT
      else if ident = ''ask'' then TOKEN_ASK
      else if ident = ''before'' then TOKEN_BEFORE
      else if ident = ''after'' then TOKEN_AFTER
      else if ident = ''shell'' then TOKEN_SHELL
      else if ident = ''True'' then TOKEN_BOOLEAN
      else if ident = ''False'' then TOKEN_BOOLEAN
      else TOKEN_IDENTIFIER)"

text \<open>
  \<^verbatim>\<open>NextToken\<close>. \<open>tok\<close> starts as \<^verbatim>\<open>Token{Line: l.line, Column: l.column}\<close>, whose \<^verbatim>\<open>Type\<close> is the
  zero of \<^verbatim>\<open>TokenType\<close>, \<^verbatim>\<open>TOKEN_EOF\<close>, and whose \<^verbatim>\<open>Literal\<close> is empty; a branch of the switch
  that sets nothing returns it as it is, and a branch that does not call \<^verbatim>\<open>readChar\<close> leaves the
  lexer where it is.
\<close>

definition NextToken :: "Lexer \<Rightarrow> Token \<times> Lexer" where
  "NextToken l0 =
     (let l = skipWhitespace (skipComment (skipWhitespace l0));
          tok = \<lparr>Type = TOKEN_EOF, Literal = [], Line = line l, Column = column l\<rparr>
      in if ch l = CHR 0x0A
         then (tok\<lparr>Type := TOKEN_NEWLINE, Literal := [CHR 0x0A]\<rparr>, readChar l)
         else if ch l = CHR ''=''
         then (if peekChar l = CHR ''=''
               then (tok\<lparr>Type := TOKEN_EQ, Literal := ''==''\<rparr>, readChar (readChar l))
               else (tok\<lparr>Type := TOKEN_ASSIGN, Literal := ''=''\<rparr>, readChar l))
         else if ch l = CHR ''!''
         then (if peekChar l = CHR ''=''
               then (tok\<lparr>Type := TOKEN_NEQ, Literal := ''!=''\<rparr>, readChar (readChar l))
               else (tok, l))
         else if ch l = CHR ''<''
         then (if peekChar l = CHR ''=''
               then (tok\<lparr>Type := TOKEN_LTE, Literal := ''<=''\<rparr>, readChar (readChar l))
               else (tok\<lparr>Type := TOKEN_LT, Literal := ''<''\<rparr>, readChar l))
         else if ch l = CHR ''>''
         then (if peekChar l = CHR ''=''
               then (tok\<lparr>Type := TOKEN_GTE, Literal := ''>=''\<rparr>, readChar (readChar l))
               else (tok\<lparr>Type := TOKEN_GT, Literal := ''>''\<rparr>, readChar l))
         else if ch l = CHR ''+''
         then (if peekChar l = CHR ''+''
               then (tok\<lparr>Type := TOKEN_PLUSPLUS, Literal := ''++''\<rparr>, readChar (readChar l))
               else (tok\<lparr>Type := TOKEN_PLUS, Literal := ''+''\<rparr>, readChar l))
         else if ch l = CHR ''-''
         then (if peekChar l = CHR ''-''
               then (tok\<lparr>Type := TOKEN_MINUSMINUS, Literal := ''--''\<rparr>, readChar (readChar l))
               else (tok\<lparr>Type := TOKEN_MINUS, Literal := ''-''\<rparr>, readChar l))
         else if ch l = CHR ''{'' then (tok\<lparr>Type := TOKEN_LBRACE, Literal := ''{''\<rparr>, readChar l)
         else if ch l = CHR ''}'' then (tok\<lparr>Type := TOKEN_RBRACE, Literal := ''}''\<rparr>, readChar l)
         else if ch l = CHR ''['' then (tok\<lparr>Type := TOKEN_LBRACKET, Literal := ''[''\<rparr>, readChar l)
         else if ch l = CHR '']'' then (tok\<lparr>Type := TOKEN_RBRACKET, Literal := '']''\<rparr>, readChar l)
         else if ch l = CHR '','' then (tok\<lparr>Type := TOKEN_COMMA, Literal := '',''\<rparr>, readChar l)
         else if ch l = CHR ''.'' then (tok\<lparr>Type := TOKEN_DOT, Literal := ''.''\<rparr>, readChar l)
         else if ch l = CHR 0x22
         then (case readString l of
                 (str, l') \<Rightarrow> (tok\<lparr>Type := TOKEN_STRING, Literal := str\<rparr>, l'))
         else if ch l = CHR 0x00 then (tok\<lparr>Type := TOKEN_EOF, Literal := []\<rparr>, l)
         else if isLetter (ch l)
         then (case readIdentifier l of
                 (ident, l') \<Rightarrow> (tok\<lparr>Literal := ident, Type := lookupKeyword ident\<rparr>, l'))
         else if isDigit (ch l)
         then (case readNumber l of
                 (num, l') \<Rightarrow> (tok\<lparr>Type := TOKEN_NUMBER, Literal := num\<rparr>, l'))
         else (tok, l))"

section \<open>The syntax tree\<close>

text \<open>
  The types that implement the interface \<^verbatim>\<open>Node\<close>. A statement list, a list literal and the
  value of an assignment hold any \<^verbatim>\<open>Node\<close>, as in the source. The \<^verbatim>\<open>*Condition\<close> of an
  \<^verbatim>\<open>IfStatement\<close> is held as a node too; the parser only ever puts a \<open>Condition\<close> there.

  \<^verbatim>\<open>parseIfStatement\<close> and \<^verbatim>\<open>parseRepeatStatement\<close> return a nil pointer when the opening brace
  is missing, and \<^verbatim>\<open>parseStatement\<close> returns that pointer as a \<^verbatim>\<open>Node\<close>: an interface value that
  is not nil and holds a nil \<^verbatim>\<open>*IfStatement\<close> (or \<^verbatim>\<open>*RepeatStatement\<close>). Such a node passes
  every \<^verbatim>\<open>stmt != nil\<close> and is appended to the statements. \<open>NilIfStatement\<close> and
  \<open>NilRepeatStatement\<close> are these two values.
\<close>

datatype 'f node =
  Assignment string "'f node"
| StringLiteral string
| NumberLiteral 'f
| BooleanLiteral bool
| Identifier string
| ListLiteral "'f node list"
| AskStatement string
| IfStatement "'f node" "'f node list" "'f node list"
| Condition "'f node" string "'f node"
| RepeatStatement int "'f node list"
| BeforeBlock "'f node list"
| AfterBlock "'f node list"
| ShellCommand string
| MCPCall string string string
| IncrementDecrement string string
| NilIfStatement
| NilRepeatStatement

datatype 'f Program = Program (Statements: "'f node list")

section \<open>Values\<close>

text \<open>
  What an \<^verbatim>\<open>interface{}\<close> of the variable map holds: a \<^verbatim>\<open>string\<close>, a \<^verbatim>\<open>float64\<close>, a
  \<^verbatim>\<open>bool\<close>, a \<^verbatim>\<open>[]interface{}\<close>, or \<^verbatim>\<open>nil\<close> (what \<^verbatim>\<open>evalValue\<close> returns on a node that
  is not a value). No value of dynamic type \<^verbatim>\<open>int\<close> is ever stored, so the \<^verbatim>\<open>case int\<close> of
  \<^verbatim>\<open>toFloat\<close> has no counterpart.
\<close>

datatype 'f val =
  VString string
| VNumber 'f
| VBool bool
| VList "'f val list"
| VNil

text \<open>\<^verbatim>\<open>fmt.Sprintf("%v", v)\<close>.\<close>

fun Sprint :: "'f host \<Rightarrow> 'f val \<Rightarrow> string" where
  "Sprint h (VString s) = s"
| "Sprint h (VNumber x) = FormatFloat h x"
| "Sprint h (VBool b) = (if b then ''true'' else ''false'')"
| "Sprint h (VList vs) = ''['' @ Join (map (Sprint h) vs) '' '' @ '']''"
| "Sprint h VNil = ''<nil>''"

text \<open>\<^verbatim>\<open>fmt.Sprintf("%v", m[k])\<close> of a map lookup: a missing key gives \<^verbatim>\<open>nil\<close>.\<close>

definition SprintLookup :: "'f host \<Rightarrow> 'f val option \<Rightarrow> string" where
  "SprintLookup h v = (case v of None \<Rightarrow> ''<nil>'' | Some x \<Rightarrow> Sprint h x)"

section \<open>The interpreter\<close>

text \<open>
  The fields of the struct \<^verbatim>\<open>Interpreter\<close>. \<open>outputWriter\<close> holds what the interpreter has
  written to its writer, one entry for each \<^verbatim>\<open>Fprintf\<close>. \<open>syscalls\<close> is not a field of the
  struct: it is the history of the calls made to the operating system, in order.
\<close>

record 'f Interpreter =
  variables :: "string \<rightharpoonup> 'f val"
  beforeHooks :: "'f node list"
  afterHooks :: "'f node list"
  claudeCLI :: string
  dryRun :: bool
  verbose :: bool
  skipPermissions :: bool
  model :: string
  outputWriter :: "string list"
  syscalls :: "syscall list"

definition NewInterpreter :: "'f Interpreter" where
  "NewInterpreter =
     \<lparr>variables = Map.empty, beforeHooks = [], afterHooks = [], claudeCLI = ''claude'',
      dryRun = False, verbose = True, skipPermissions = True, model = '''',
      outputWriter = [], syscalls = []\<rparr>"

definition log :: "'f Interpreter \<Rightarrow> string \<Rightarrow> 'f Interpreter" where
  "log i msg =
     (if verbose i then i\<lparr>outputWriter := outputWriter i @ [msg @ [CHR 0x0A]]\<rparr> else i)"

text \<open>A call to the operating system: its outcome, and the call recorded.\<close>

definition sys :: "'f host \<Rightarrow> syscall \<Rightarrow> 'f Interpreter \<Rightarrow> (error + string) \<times> 'f Interpreter" where
  "sys h c i = (os_call h (syscalls i) c, i\<lparr>syscalls := syscalls i @ [c]\<rparr>)"

fun evalValue :: "'f Interpreter \<Rightarrow> 'f node \<Rightarrow> 'f val" where
  "evalValue i (StringLiteral v) = VString v"
| "evalValue i (NumberLiteral v) = VNumber v"
| "evalValue i (BooleanLiteral v) = VBool v"
| "evalValue i (Identifier name) =
     (case variables i name of Some v \<Rightarrow> v | None \<Rightarrow> VString name)"
| "evalValue i (ListLiteral elements) = VList (map (evalValue i) elements)"
| "evalValue i _ = VNil"

fun toFloat :: "'f host \<Rightarrow> 'f val \<Rightarrow> 'f" where
  "toFloat h (VNumber v) = v"
| "toFloat h (VString v) = fst (ParseFloat h v)"
| "toFloat h (VBool v) = (if v then f_one h else f_zero h)"
| "toFloat h _ = f_zero h"

text \<open>
  \<^verbatim>\<open>evalCondition\<close>, on the three fields of the \<^verbatim>\<open>*Condition\<close>. Go's \<open>a > b\<close> on \<^verbatim>\<open>float64\<close> is
  \<open>b < a\<close>, and \<open>a >= b\<close> is \<open>b <= a\<close>.
\<close>

definition evalCondition :: "'f host \<Rightarrow> 'f Interpreter \<Rightarrow> 'f node \<Rightarrow> bool" where
  "evalCondition h i cond =
     (case cond of
        Condition l operator r \<Rightarrow>
          (let left = evalValue i l; right = evalValue i r in
           if operator = ''=='' then Sprint h left = Sprint h right
           else if operator = ''!='' then Sprint h left \<noteq> Sprint h right
           else if operator = ''<'' then f_lt h (toFloat h left) (toFloat h right)
           else if operator = ''>'' then f_lt h (toFloat h right) (toFloat h left)
           else if operator = ''<='' then f_le h (toFloat h left) (toFloat h right)
           else if operator = ''>='' then f_le h (toFloat h right) (toFloat h left)
           else False)
      | _ \<Rightarrow> False)"

definition truncateString :: "string \<Rightarrow> nat \<Rightarrow> string" where
  "truncateString s maxLen = (if length s \<le> maxLen then s else take (maxLen - 3) s @ ''...'')"

definition buildContext :: "'f Interpreter \<Rightarrow> (string \<rightharpoonup> 'f val)" where
  "buildContext i = (\<lambda>k. variables i k)"

fun formatValue :: "'f host \<Rightarrow> 'f val \<Rightarrow> string" where
  "formatValue h (VList items) = Join (map (Sprint h) items) '', ''"
| "formatValue h v = Sprint h v"

text \<open>One \<^verbatim>\<open>if v, ok := context[key]; ok { prompt.WriteString(...) }\<close> of \<^verbatim>\<open>buildPrompt\<close>.\<close>

definition promptLine :: "(string \<rightharpoonup> 'f val) \<Rightarrow> string \<Rightarrow> string \<Rightarrow> ('f val \<Rightarrow> string) \<Rightarrow> string" where
  "promptLine context key label fmt =
     (case context key of Some v \<Rightarrow> label @ fmt v @ [CHR 0x0A] | None \<Rightarrow> [])"

definition buildPrompt :: "'f host \<Rightarrow> string \<Rightarrow> (string \<rightharpoonup> 'f val) \<Rightarrow> string" where
  "buildPrompt h instruction context =
     ''You are building a project with the following specifications:'' @ [CHR 0x0A, CHR 0x0A]
     @ promptLine context ''project'' ''Project Name: '' (Sprint h)
     @ promptLine context ''victim'' ''Target Platform: '' (Sprint h)
     @ promptLine context ''frontend'' ''Frontend: '' (Sprint h)
     @ promptLine context ''backend'' ''Backend: '' (Sprint h)
     @ promptLine context ''db'' ''Database: '' (Sprint h)
     @ promptLine context ''ai'' ''AI Features: '' (formatValue h)
     @ promptLine context ''tools'' ''Tools: '' (formatValue h)
     @ promptLine context ''task'' (CHR 0x0A # ''Main Task: '') (Sprint h)
     @ [CHR 0x0A] @ ''Current Step: '' @ instruction @ [CHR 0x0A]
     @ [CHR 0x0A] @ ''Please implement this step. Create all necessary files and code.''"

definition claudeArgs :: "'f Interpreter \<Rightarrow> string \<Rightarrow> string list" where
  "claudeArgs i prompt =
     [''--print'']
     @ (if skipPermissions i then [''--dangerously-skip-permissions''] else [])
     @ (if model i \<noteq> '''' then [''--model'', model i] else [])
     @ [''-p'', prompt]"

definition callClaudeCode :: "'f host \<Rightarrow> string \<Rightarrow> 'f Interpreter \<Rightarrow> error option \<times> 'f Interpreter" where
  "callClaudeCode h prompt i0 =
     (let i1 = log i0 (''  '' @ u_arrow @ '' Calling Claude Code CLI...'') in
      case sys h (Exec (claudeCLI i1) (claudeArgs i1 prompt)) i1 of
        (Inl err, i2) \<Rightarrow>
          (None,
           log (log i2 (''  '' @ u_warn @ '' Claude Code CLI not available or failed''))
             (''  '' @ u_arrow @ '' Prompt would be: '' @ truncateString prompt 100))
      | (Inr out, i2) \<Rightarrow> (None, log i2 (''  '' @ u_check @ '' Step completed'')))"

definition executeAsk :: "'f host \<Rightarrow> string \<Rightarrow> 'f Interpreter \<Rightarrow> error option \<times> 'f Interpreter" where
  "executeAsk h instruction i0 =
     (let i1 = log i0 '''';
          i2 = log i1 (u_sgl_tl @ concat (replicate 61 u_sgl) @ u_sgl_tr);
          i3 = log i2 (u_sgl_v @ '' ASK: '' @ truncateString instruction 53);
          i4 = log i3 (u_sgl_bl @ concat (replicate 61 u_sgl) @ u_sgl_br);
          context = buildContext i4;
          prompt = buildPrompt h instruction context
      in if dryRun i4
         then (None, log (log i4 ''[DRY RUN] Would send to Claude Code CLI:'')
                       (''  Prompt: '' @ truncateString prompt 60))
         else callClaudeCode h prompt i4)"

definition executeShell :: "'f host \<Rightarrow> string \<Rightarrow> 'f Interpreter \<Rightarrow> error option \<times> 'f Interpreter" where
  "executeShell h command i0 =
     (let i1 = log i0 (''  '' @ u_arrow @ '' Shell: '' @ command) in
      if dryRun i1 then (None, log i1 (''  [DRY RUN] Would execute: '' @ command))
      else case sys h (Exec ''sh'' [''-c'', command]) i1 of
             (Inl err, i2) \<Rightarrow> (Some (Errorf ''shell command failed'' err), i2)
           | (Inr out, i2) \<Rightarrow> (None, log i2 (''  '' @ u_check @ '' Shell command completed'')))"

text \<open>
  The end of \<^verbatim>\<open>executeMCP\<close>, after the \<^verbatim>\<open>switch\<close>: the command \<open>cmd\<close>, when the switch has
  built one, is run. In \<^verbatim>\<open>executeMCP\<close> the permission bits \<^verbatim>\<open>0644\<close> and \<^verbatim>\<open>0755\<close> are octal:
  420 and 493.
\<close>

definition finishMCP :: "'f host \<Rightarrow> syscall option \<Rightarrow> 'f Interpreter \<Rightarrow> error option \<times> 'f Interpreter" where
  "finishMCP h cmd i =
     (case cmd of
        Some c \<Rightarrow>
          (case sys h c i of
             (Inl err, i2) \<Rightarrow> (Some (Errorf ''MCP command failed'' err), i2)
           | (Inr out, i2) \<Rightarrow> (None, log i2 (''  '' @ u_check @ '' MCP call completed'')))
      | None \<Rightarrow> (None, log i (''  '' @ u_check @ '' MCP call completed'')))"

definition executeMCP :: "'f host \<Rightarrow> string \<Rightarrow> string \<Rightarrow> string \<Rightarrow> 'f Interpreter \<Rightarrow> error option \<times> 'f Interpreter" where
  "executeMCP h service method arg i0 =
     (let i1 = log i0 (''  '' @ u_arrow @ '' MCP: '' @ service @ ''.'' @ method) in
      if dryRun i1
      then (None, log i1 (''  [DRY RUN] Would call MCP: '' @ service @ ''.'' @ method
                            @ ''('' @ arg @ '')''))
      else if service = ''shell''
      then finishMCP h (if method = ''run'' then Some (Exec ''sh'' [''-c'', arg]) else None) i1
      else if service = ''fs''
      then (if method = ''write''
            then (case json_Unmarshal h arg of
                    Some args \<Rightarrow>
                      (case args ''path'' of
                         Some path \<Rightarrow>
                           (let content = (case args ''content'' of Some c \<Rightarrow> c | None \<Rightarrow> '''') in
                            case sys h (WriteFile path content 420) i1 of
                              (Inl err, i2) \<Rightarrow> (Some (Errorf ''fs.write failed'' err), i2)
                            | (Inr out, i2) \<Rightarrow>
                                (None, log i2 (''  '' @ u_check @ '' Created file: '' @ path)))
                       | None \<Rightarrow> finishMCP h None i1)
                  | None \<Rightarrow> finishMCP h None i1)
            else if method = ''mkdir''
            then (case sys h (MkdirAll arg 493) i1 of
                    (Inl err, i2) \<Rightarrow> (Some (Errorf ''fs.mkdir failed'' err), i2)
                  | (Inr out, i2) \<Rightarrow>
                      (None, log i2 (''  '' @ u_check @ '' Created directory: '' @ arg)))
            else if method = ''read''
            then (case sys h (ReadFile arg) i1 of
                    (Inl err, i2) \<Rightarrow> (Some (Errorf ''fs.read failed'' err), i2)
                  | (Inr content, i2) \<Rightarrow>
                      (None, log i2 (''  File content:'' @ [CHR 0x0A] @ content)))
            else finishMCP h None i1)
      else if service = ''browser''
      then (None, log i1 (''  '' @ u_warn
                    @ '' Browser MCP operations require external browser automation''))
      else finishMCP h None i1)"

definition executeIncrementDecrement :: "'f host \<Rightarrow> string \<Rightarrow> string \<Rightarrow> 'f Interpreter \<Rightarrow> error option \<times> 'f Interpreter" where
  "executeIncrementDecrement h name operator i =
     (case variables i name of
        Some (VNumber num) \<Rightarrow>
          (if operator = ''++''
           then (None, i\<lparr>variables := (variables i)(name \<mapsto> VNumber (f_add h num (f_one h)))\<rparr>)
           else (None, i\<lparr>variables := (variables i)(name \<mapsto> VNumber (f_sub h num (f_one h)))\<rparr>))
      | _ \<Rightarrow> (None, i))"

text \<open>
  What the run time reports when \<^verbatim>\<open>executeIf\<close> reads \<^verbatim>\<open>ifStmt.Condition\<close>, or \<^verbatim>\<open>executeRepeat\<close>
  reads \<^verbatim>\<open>repeat.Count\<close>, through a nil pointer.
\<close>

definition nilDereference :: string where
  "nilDereference = ''runtime error: invalid memory address or nil pointer dereference''"

text \<open>
  \<^verbatim>\<open>executeStatement\<close>, with \<^verbatim>\<open>executeIf\<close> and \<^verbatim>\<open>executeRepeat\<close>. \<open>executeStatements\<close> is
  the loop \<^verbatim>\<open>for _, stmt := range ... { if err := i.executeStatement(stmt); err != nil
  { return err } }\<close> that the three of them share, and \<open>repeatLoop\<close> is the loop of
  \<^verbatim>\<open>executeRepeat\<close> from its counter \<open>j\<close> on.
\<close>

function (sequential)
  executeStatement :: "'f host \<Rightarrow> 'f node \<Rightarrow> 'f Interpreter \<Rightarrow> error option \<times> 'f Interpreter"
  and executeStatements :: "'f host \<Rightarrow> 'f node list \<Rightarrow> 'f Interpreter \<Rightarrow> error option \<times> 'f Interpreter"
  and executeIf :: "'f host \<Rightarrow> 'f node \<Rightarrow> 'f node list \<Rightarrow> 'f node list \<Rightarrow> 'f Interpreter \<Rightarrow> error option \<times> 'f Interpreter"
  and executeRepeat :: "'f host \<Rightarrow> int \<Rightarrow> 'f node list \<Rightarrow> 'f Interpreter \<Rightarrow> error option \<times> 'f Interpreter"
  and repeatLoop :: "'f host \<Rightarrow> int \<Rightarrow> int \<Rightarrow> 'f node list \<Rightarrow> 'f Interpreter \<Rightarrow> error option \<times> 'f Interpreter"
where
  "executeStatement h (Assignment name v) i = (None, i)"
| "executeStatement h (AskStatement instruction) i = executeAsk h instruction i"
| "executeStatement h (IfStatement cond consequence alternative) i =
     executeIf h cond consequence alternative i"
| "executeStatement h (RepeatStatement count body) i = executeRepeat h count body i"
| "executeStatement h (ShellCommand command) i = executeShell h command i"
| "executeStatement h (MCPCall service method arg) i = executeMCP h service method arg i"
| "executeStatement h (IncrementDecrement name operator) i =
     executeIncrementDecrement h name operator i"
| "executeStatement h (BeforeBlock stmts) i = (None, i)"
| "executeStatement h (AfterBlock stmts) i = (None, i)"
| "executeStatement h NilIfStatement i = (Some (Panic nilDereference), i)"
| "executeStatement h NilRepeatStatement i = (Some (Panic nilDereference), i)"
| "executeStatement h _ i = (None, i)"
| "executeStatements h [] i = (None, i)"
| "executeStatements h (stmt # stmts) i =
     (case executeStatement h stmt i of
        (Some err, i') \<Rightarrow> (Some err, i')
      | (None, i') \<Rightarrow> executeStatements h stmts i')"
| "executeIf h cond consequence alternative i =
     (if evalCondition h i cond then executeStatements h consequence i
      else if alternative \<noteq> [] then executeStatements h alternative i
      else (None, i))"
| "executeRepeat h count body i = repeatLoop h 0 count body i"
| "repeatLoop h j count body i =
     (if j < count
      then (case executeStatements h body
                   (log i (''  [Repeat '' @ showInt (j + 1) @ ''/'' @ showInt count @ '']'')) of
              (Some err, i') \<Rightarrow> (Some err, i')
            | (None, i') \<Rightarrow> repeatLoop h (j + 1) count body i')
      else (None, i))"
  by pat_completeness auto
termination
  by (relation "measures
        [\<lambda>x. case x of
            Inl (Inl (h, stmt, i)) \<Rightarrow> 2 * size stmt + 1
          | Inl (Inr (h, stmts, i)) \<Rightarrow> 2 * size_list size stmts + 1
          | Inr (Inl (h, c, cons, alt, i)) \<Rightarrow> 2 * (size_list size cons + size_list size alt) + 2
          | Inr (Inr (Inl (h, count, body, i))) \<Rightarrow> 2 * size_list size body + 2
          | Inr (Inr (Inr (h, j, count, body, i))) \<Rightarrow> 2 * size_list size body + 2,
         \<lambda>x. case x of
            Inl (Inl (h, stmt, i)) \<Rightarrow> 0
          | Inl (Inr (h, stmts, i)) \<Rightarrow> 0
          | Inr (Inl (h, c, cons, alt, i)) \<Rightarrow> 0
          | Inr (Inr (Inl (h, count, body, i))) \<Rightarrow> Suc (nat count)
          | Inr (Inr (Inr (h, j, count, body, i))) \<Rightarrow> nat (count - j)]")
     auto

fun executeHook :: "'f host \<Rightarrow> 'f node \<Rightarrow> 'f Interpreter \<Rightarrow> error option \<times> 'f Interpreter" where
  "executeHook h (ShellCommand command) i = executeShell h command i"
| "executeHook h (MCPCall service method arg) i = executeMCP h service method arg i"
| "executeHook h _ i = (None, i)"

text \<open>
  The loop \<^verbatim>\<open>for _, hook := range hooks { if err := i.executeHook(hook); err != nil { return
  ... } }\<close> of \<^verbatim>\<open>Execute\<close>; the caller wraps the error.
\<close>

fun executeHooks :: "'f host \<Rightarrow> 'f node list \<Rightarrow> 'f Interpreter \<Rightarrow> error option \<times> 'f Interpreter" where
  "executeHooks h [] i = (None, i)"
| "executeHooks h (hook # hooks) i =
     (case executeHook h hook i of
        (Some err, i') \<Rightarrow> (Some err, i')
      | (None, i') \<Rightarrow> executeHooks h hooks i')"

text \<open>The body of the first loop of \<^verbatim>\<open>Execute\<close>, and the loop.\<close>

fun collectStatement :: "'f node \<Rightarrow> 'f Interpreter \<Rightarrow> 'f Interpreter" where
  "collectStatement (Assignment name v) i =
     i\<lparr>variables := (variables i)(name \<mapsto> evalValue i v)\<rparr>"
| "collectStatement (BeforeBlock stmts) i = i\<lparr>beforeHooks := beforeHooks i @ stmts\<rparr>"
| "collectStatement (AfterBlock stmts) i = i\<lparr>afterHooks := afterHooks i @ stmts\<rparr>"
| "collectStatement _ i = i"

fun collect :: "'f node list \<Rightarrow> 'f Interpreter \<Rightarrow> 'f Interpreter" where
  "collect [] i = i"
| "collect (stmt # stmts) i = collect stmts (collectStatement stmt i)"

definition rule3 :: string where
  "rule3 = concat (replicate 3 u_dbl)"

definition banner :: "'f host \<Rightarrow> 'f Interpreter \<Rightarrow> 'f Interpreter" where
  "banner h i0 =
     (let i1 = log i0 (u_dbl_tl @ concat (replicate 60 u_dbl) @ u_dbl_tr);
          i2 = log i1 (u_dbl_v @ replicate 14 CHR '' '' @ ''VIBE DSL Interpreter v1.0''
                       @ replicate 21 CHR '' '' @ u_dbl_v);
          i3 = log i2 (u_dbl_bl @ concat (replicate 60 u_dbl) @ u_dbl_br);
          i4 = log i3 [];
          i5 = log i4 (''Project: '' @ SprintLookup h (variables i4 ''project''));
          i6 = log i5 (''Target:  '' @ SprintLookup h (variables i5 ''victim''))
      in log i6 [])"

definition runBeforeHooks :: "'f host \<Rightarrow> 'f Interpreter \<Rightarrow> error option \<times> 'f Interpreter" where
  "runBeforeHooks h i =
     (if beforeHooks i \<noteq> []
      then (case executeHooks h (beforeHooks i)
                   (log i (rule3 @ '' Running Pre-Hooks '' @ rule3)) of
              (Some err, i') \<Rightarrow> (Some (Errorf ''before hook failed'' err), i')
            | (None, i') \<Rightarrow> (None, log i' []))
      else (None, i))"

definition runAfterHooks :: "'f host \<Rightarrow> 'f Interpreter \<Rightarrow> error option \<times> 'f Interpreter" where
  "runAfterHooks h i =
     (if afterHooks i \<noteq> []
      then (case executeHooks h (afterHooks i)
                   (log (log i []) (rule3 @ '' Running Post-Hooks '' @ rule3)) of
              (Some err, i') \<Rightarrow> (Some (Errorf ''after hook failed'' err), i')
            | (None, i') \<Rightarrow> (None, i'))
      else (None, i))"

text \<open>
  \<^verbatim>\<open>Execute\<close>: the first pass, the banner, the hooks that run before, the second pass, the
  hooks that run after.
\<close>

definition Execute :: "'f host \<Rightarrow> 'f Program \<Rightarrow> 'f Interpreter \<Rightarrow> error option \<times> 'f Interpreter" where
  "Execute h program i0 =
     (let i1 = banner h (collect (Statements program) i0) in
      case runBeforeHooks h i1 of
        (Some err, i2) \<Rightarrow> (Some err, i2)
      | (None, i2) \<Rightarrow>
          (case executeStatements h (Statements program)
                  (log i2 (rule3 @ '' Executing Build Steps '' @ rule3)) of
             (Some err, i3) \<Rightarrow> (Some err, i3)
           | (None, i3) \<Rightarrow>
               (case runAfterHooks h i3 of
                  (Some err, i4) \<Rightarrow> (Some err, i4)
                | (None, i4) \<Rightarrow>
                    (None, log (log i4 []) (rule3 @ '' Build Complete '' @ rule3)))))"

section \<open>A host for the examples\<close>

text \<open>
  The examples are evaluated on one instance of the library: \<^verbatim>\<open>float64\<close> restricted to the
  integers, on which Go's arithmetic, order, \<^verbatim>\<open>ParseFloat\<close> and \<^verbatim>\<open>%v\<close> are those of the
  integers (below \<open>2^53\<close> in magnitude, and below \<open>10^21\<close> for \<^verbatim>\<open>%v\<close>); a decoder of the JSON
  objects that are written without escapes and without white space; and an operating
  system that is given by the list of the calls that fail.
\<close>

definition decimal :: "string \<Rightarrow> nat" where
  "decimal s = foldl (\<lambda>n ch. 10 * n + (of_char ch - 48)) 0 s"

definition demo_ParseFloat :: "string \<Rightarrow> int \<times> bool" where
  "demo_ParseFloat s =
     (if s \<noteq> [] \<and> list_all isDigit s then (int (decimal s), True) else (0, False))"

text \<open>
  The decoder reads \<^verbatim>\<open>{"key":"value",...}\<close> one byte at a time. Its positions: before a key,
  in a key, before the colon, before a value, in a value, after a value, after the object.
\<close>

datatype jpos = JKey | JInKey | JColon | JValue | JInValue | JNext | JEnd

fun json_members :: "jpos \<Rightarrow> string \<Rightarrow> string \<Rightarrow> (string \<rightharpoonup> string) \<Rightarrow> string \<Rightarrow> (string \<rightharpoonup> string) option" where
  "json_members p k v m [] = (if p = JEnd then Some m else None)"
| "json_members p k v m (c # cs) =
     (case p of
        JKey \<Rightarrow> if c = CHR 0x22 then json_members JInKey [] [] m cs else None
      | JInKey \<Rightarrow>
          if c = CHR 0x22 then json_members JColon k [] m cs
          else if c = CHR 0x5C then None
          else json_members JInKey (k @ [c]) [] m cs
      | JColon \<Rightarrow> if c = CHR '':'' then json_members JValue k [] m cs else None
      | JValue \<Rightarrow> if c = CHR 0x22 then json_members JInValue k [] m cs else None
      | JInValue \<Rightarrow>
          if c = CHR 0x22 then json_members JNext [] [] (m(k \<mapsto> v)) cs
          else if c = CHR 0x5C then None
          else json_members JInValue k (v @ [c]) m cs
      | JNext \<Rightarrow>
          if c = CHR '','' then json_members JKey [] [] m cs
          else if c = CHR ''}'' then json_members JEnd [] [] m cs
          else None
      | JEnd \<Rightarrow> None)"

definition demo_json :: "string \<Rightarrow> (string \<rightharpoonup> string) option" where
  "demo_json s =
     (case s of
        [] \<Rightarrow> None
      | c # cs \<Rightarrow>
          if c \<noteq> CHR ''{'' then None
          else if cs = ''}'' then Some Map.empty
          else json_members JKey [] [] Map.empty cs)"

definition demo_host :: "syscall list \<Rightarrow> int host" where
  "demo_host failing =
     \<lparr>ParseFloat = demo_ParseFloat, FormatFloat = showInt, f_zero = 0, f_one = 1,
      f_add = (+), f_sub = (-), f_lt = (<), f_le = (\<le>), json_Unmarshal = demo_json,
      os_call = (\<lambda>history c. if c \<in> set failing then Inl (OSError ''exit status 1'')
                               else Inr [])\<rparr>"

section \<open>Notions for the statements\<close>

declare showNat.simps [simp del]

declare repeatLoop.simps [simp del]

text \<open>
  \<open>dropNested\<close> removes from a statement every assignment that is nested in it: in the
  consequence or the alternative of an \<^verbatim>\<open>if\<close>, in the body of a \<^verbatim>\<open>repeat\<close>, in a hook block, at
  any depth. A top-level assignment is a statement of its own and is kept.
\<close>

fun isAssignment :: "'f node \<Rightarrow> bool" where
  "isAssignment (Assignment name v) = True"
| "isAssignment _ = False"

fun dropNested :: "'f node \<Rightarrow> 'f node" where
  "dropNested (IfStatement c consequence alternative) =
     IfStatement c (map dropNested (filter (\<lambda>s. \<not> isAssignment s) consequence))
                   (map dropNested (filter (\<lambda>s. \<not> isAssignment s) alternative))"
| "dropNested (RepeatStatement count body) =
     RepeatStatement count (map dropNested (filter (\<lambda>s. \<not> isAssignment s) body))"
| "dropNested (BeforeBlock stmts) =
     BeforeBlock (map dropNested (filter (\<lambda>s. \<not> isAssignment s) stmts))"
| "dropNested (AfterBlock stmts) =
     AfterBlock (map dropNested (filter (\<lambda>s. \<not> isAssignment s) stmts))"
| "dropNested stmt = stmt"

definition dropAssignments :: "'f node list \<Rightarrow> 'f node list" where
  "dropAssignments stmts = map dropNested (filter (\<lambda>s. \<not> isAssignment s) stmts)"

text \<open>
  Two interpreters that agree on everything but what has been written to the writer and the
  registered hooks.
\<close>

definition sim :: "'f Interpreter \<Rightarrow> 'f Interpreter \<Rightarrow> bool" where
  "sim i i' \<longleftrightarrow>
     variables i = variables i' \<and> claudeCLI i = claudeCLI i' \<and> dryRun i = dryRun i' \<and>
     verbose i = verbose i' \<and> skipPermissions i = skipPermissions i' \<and> model i = model i' \<and>
     syscalls i = syscalls i'"

text \<open>The statements that \<^verbatim>\<open>executeHook\<close> executes.\<close>

fun isHookStatement :: "'f node \<Rightarrow> bool" where
  "isHookStatement (ShellCommand command) = True"
| "isHookStatement (MCPCall service method arg) = True"
| "isHookStatement _ = False"

text \<open>The fields that no statement changes.\<close>

definition config :: "'f Interpreter \<Rightarrow> 'f node list \<times> 'f node list \<times> string \<times> bool \<times> bool \<times> bool \<times> string" where
  "config i = (beforeHooks i, afterHooks i, claudeCLI i, dryRun i, verbose i, skipPermissions i, model i)"

definition sameHooks :: "'f Interpreter \<Rightarrow> 'f Interpreter \<Rightarrow> bool" where
  "sameHooks i i' \<longleftrightarrow>
     filter isHookStatement (beforeHooks i) = filter isHookStatement (beforeHooks i') \<and>
     filter isHookStatement (afterHooks i) = filter isHookStatement (afterHooks i')"

text \<open>\<^verbatim>\<open>if err := r; err != nil { return err }\<close>, then \<open>f\<close>.\<close>

definition andThen :: "error option \<times> 's \<Rightarrow> ('s \<Rightarrow> error option \<times> 's) \<Rightarrow> error option \<times> 's" where
  "andThen r f = (case r of (Some err, i) \<Rightarrow> (Some err, i) | (None, i) \<Rightarrow> f i)"

definition simH :: "'f Interpreter \<Rightarrow> 'f Interpreter \<Rightarrow> bool" where
  "simH i i' \<longleftrightarrow> sim i i' \<and> sameHooks i i'"

text \<open>
  Running a step once for each element of a list, in the order of the list, each run starting
  in the state the run before it left; a run that returns an error ends the whole at once.
\<close>

fun forEach :: "('a \<Rightarrow> 's \<Rightarrow> error option \<times> 's) \<Rightarrow> 'a list \<Rightarrow> 's \<Rightarrow> error option \<times> 's" where
  "forEach f [] i = (None, i)"
| "forEach f (x # xs) i =
     (case f x i of (Some err, i') \<Rightarrow> (Some err, i') | (None, i') \<Rightarrow> forEach f xs i')"

text \<open>
  One round of a \<^verbatim>\<open>repeat\<close>: the progress line of round \<open>j\<close> (counted from 0), then the
  whole body.
\<close>

definition repeatRound :: "'f host \<Rightarrow> int \<Rightarrow> 'f node list \<Rightarrow> nat \<Rightarrow> 'f Interpreter \<Rightarrow> error option \<times> 'f Interpreter" where
  "repeatRound h count body j i =
     executeStatements h body
       (log i (''  [Repeat '' @ showInt (int j + 1) @ ''/'' @ showInt count @ '']''))"

text \<open>Two of the lines that the interpreter writes.\<close>


definition preHooksLine :: string where
  "preHooksLine = rule3 @ '' Running Pre-Hooks '' @ rule3"

definition warnLine :: string where
  "warnLine = ''  '' @ u_warn @ '' Claude Code CLI not available or failed''"

text \<open>
  \<open>touches name\<close>: the statement holds an increment or a decrement of \<open>name\<close>, at any depth.
  \<open>assigns name\<close>: the statement is an assignment to \<open>name\<close>.
\<close>

fun touches :: "string \<Rightarrow> 'f node \<Rightarrow> bool" where
  "touches name (IncrementDecrement n operator) = (n = name)"
| "touches name (IfStatement c consequence alternative) =
     (list_ex (touches name) consequence \<or> list_ex (touches name) alternative)"
| "touches name (RepeatStatement count body) = list_ex (touches name) body"
| "touches name _ = False"

fun assigns :: "string \<Rightarrow> 'f node \<Rightarrow> bool" where
  "assigns name (Assignment n v) = (n = name)"
| "assigns name _ = False"

definition stepsLine :: string where
  "stepsLine = rule3 @ '' Executing Build Steps '' @ rule3"

definition completeLine :: string where
  "completeLine = rule3 @ '' Build Complete '' @ rule3"

text \<open>
  The state after the first \<open>k\<close> rounds of a \<^verbatim>\<open>repeat\<close>, each round started in the state the
  round before it left.
\<close>

definition afterRounds :: "'f host \<Rightarrow> int \<Rightarrow> 'f node list \<Rightarrow> nat \<Rightarrow> 'f Interpreter \<Rightarrow> 'f Interpreter" where
  "afterRounds h count body k i = fold (\<lambda>j i'. snd (repeatRound h count body j i')) [0..<k] i"

text \<open>
  The statements that one statement of a program adds to the hooks that run before, and to
  the hooks that run after.
\<close>

fun beforeStatements :: "'f node \<Rightarrow> 'f node list" where
  "beforeStatements (BeforeBlock stmts) = stmts"
| "beforeStatements _ = []"

fun afterStatements :: "'f node \<Rightarrow> 'f node list" where
  "afterStatements (AfterBlock stmts) = stmts"
| "afterStatements _ = []"

text \<open>
  \<open>asked h name stmt i x i'\<close>: when \<open>stmt\<close> is executed in the state \<open>i\<close>, the statement
  \<^verbatim>\<open>ask x\<close>, which stands in \<open>stmt\<close> at any depth, is executed in the state \<open>i'\<close>, and none of the
  statements that have been executed to their end before it holds an increment or a
  decrement of \<open>name\<close>. The rules follow \<^verbatim>\<open>executeStatement\<close>, \<^verbatim>\<open>executeIf\<close> and
  \<^verbatim>\<open>executeRepeat\<close>: the \<^verbatim>\<open>ask\<close> is the statement itself; or it is reached in the branch of
  an \<^verbatim>\<open>if\<close> that the condition selects; or in a round of a \<^verbatim>\<open>repeat\<close>, after the rounds before it
  have returned no error; and in a list of statements it is reached in the first statement,
  or in the rest after the first statement has returned no error. \<open>askedIn\<close> is the relation
  for a list of statements, \<open>askedFrom\<close> the one for the loop of \<^verbatim>\<open>executeRepeat\<close> from its
  counter \<open>j\<close> on.
\<close>

inductive asked :: "'f host \<Rightarrow> string \<Rightarrow> 'f node \<Rightarrow> 'f Interpreter \<Rightarrow> string \<Rightarrow> 'f Interpreter \<Rightarrow> bool"
  and askedIn :: "'f host \<Rightarrow> string \<Rightarrow> 'f node list \<Rightarrow> 'f Interpreter \<Rightarrow> string \<Rightarrow> 'f Interpreter \<Rightarrow> bool"
  and askedFrom :: "'f host \<Rightarrow> string \<Rightarrow> int \<Rightarrow> int \<Rightarrow> 'f node list \<Rightarrow> 'f Interpreter \<Rightarrow> string \<Rightarrow> 'f Interpreter \<Rightarrow> bool"
  for h :: "'f host" and name :: string
where
  ask: "asked h name (AskStatement x) i x i"
| consequence:
    "evalCondition h i c \<Longrightarrow> askedIn h name consequence i x i'
     \<Longrightarrow> asked h name (IfStatement c consequence alternative) i x i'"
| alternative:
    "\<not> evalCondition h i c \<Longrightarrow> askedIn h name alternative i x i'
     \<Longrightarrow> asked h name (IfStatement c consequence alternative) i x i'"
| repeat:
    "askedFrom h name 0 count body i x i' \<Longrightarrow> asked h name (RepeatStatement count body) i x i'"
| head: "asked h name stmt i x i' \<Longrightarrow> askedIn h name (stmt # stmts) i x i'"
| tail:
    "\<not> touches name stmt \<Longrightarrow> executeStatement h stmt i = (None, i1)
     \<Longrightarrow> askedIn h name stmts i1 x i' \<Longrightarrow> askedIn h name (stmt # stmts) i x i'"
| round:
    "j < count
     \<Longrightarrow> askedIn h name body
           (log i (''  [Repeat '' @ showInt (j + 1) @ ''/'' @ showInt count @ '']'')) x i'
     \<Longrightarrow> askedFrom h name j count body i x i'"
| rounds:
    "j < count \<Longrightarrow> \<not> list_ex (touches name) body
     \<Longrightarrow> executeStatements h body
           (log i (''  [Repeat '' @ showInt (j + 1) @ ''/'' @ showInt count @ '']'')) = (None, i1)
     \<Longrightarrow> askedFrom h name (j + 1) count body i1 x i'
     \<Longrightarrow> askedFrom h name j count body i x i'"

code_pred asked .

text \<open>The calls of \<open>i'\<close> are those of \<open>i\<close>, followed by more calls.\<close>

definition continues :: "'f Interpreter \<Rightarrow> 'f Interpreter \<Rightarrow> bool" where
  "continues i i' \<longleftrightarrow> (\<exists>rest. syscalls i' = syscalls i @ rest)"

text \<open>The tokens that the first \<open>n\<close> calls of \<^verbatim>\<open>NextToken\<close> return.\<close>

fun tokens :: "nat \<Rightarrow> Lexer \<Rightarrow> Token list" where
  "tokens 0 l = []"
| "tokens (Suc n) l = (case NextToken l of (tok, l') \<Rightarrow> tok # tokens n l')"

section \<open>Lemmas\<close>

lemma sim_refl [simp]: "sim i i"
  by (simp add: sim_def)

lemma sim_log: "sim i i' \<Longrightarrow> sim (log i m) (log i' m')"
  by (simp add: sim_def log_def)

lemma sim_log_left: "sim i i' \<Longrightarrow> sim (log i m) i'"
  by (simp add: sim_def log_def)

lemma sim_log_right: "sim i i' \<Longrightarrow> sim i (log i' m)"
  by (simp add: sim_def log_def)

lemma sim_sys: "sim i i' \<Longrightarrow> rel_prod (=) sim (sys h c i) (sys h c i')"
  by (simp add: sim_def sys_def)

lemma sim_evalValue: "variables i = variables i' \<Longrightarrow> evalValue i v = evalValue i' v"
  by (induction i v rule: evalValue.induct) simp_all

lemma sim_evalCondition: "sim i i' \<Longrightarrow> evalCondition h i c = evalCondition h i' c"
  unfolding evalCondition_def sim_def
  by (cases c) (simp_all add: sim_evalValue [of i i'])

lemma sim_callClaudeCode:
  assumes "sim i i'"
  shows "rel_prod (=) sim (callClaudeCode h p i) (callClaudeCode h p i')"
  using assms
  by (auto simp add: callClaudeCode_def Let_def sys_def claudeArgs_def sim_def log_def
           split: sum.splits)

lemma sim_executeAsk:
  assumes "sim i i'"
  shows "rel_prod (=) sim (executeAsk h x i) (executeAsk h x i')"
proof -
  let ?pre = "\<lambda>i. log (log (log (log i []) (u_sgl_tl @ concat (replicate 61 u_sgl) @ u_sgl_tr))
               (u_sgl_v @ '' ASK: '' @ truncateString x 53))
               (u_sgl_bl @ concat (replicate 61 u_sgl) @ u_sgl_br)"
  have s: "sim (?pre i) (?pre i')"
    using assms by (intro sim_log)
  then have v: "buildContext (?pre i) = buildContext (?pre i')" "dryRun (?pre i) = dryRun (?pre i')"
    by (simp_all add: buildContext_def sim_def)
  show ?thesis
    using s v sim_callClaudeCode [OF s]
    by (simp add: executeAsk_def Let_def sim_log)
qed

lemma sim_executeShell:
  assumes "sim i i'"
  shows "rel_prod (=) sim (executeShell h x i) (executeShell h x i')"
  using assms
  by (auto simp add: executeShell_def Let_def sys_def sim_def log_def split: sum.splits)

lemma sim_finishMCP:
  assumes "sim i i'"
  shows "rel_prod (=) sim (finishMCP h c i) (finishMCP h c i')"
  using assms
  by (auto simp add: finishMCP_def Let_def sys_def sim_def log_def split: sum.splits option.splits)

lemma sim_sys_case:
  assumes "sim i i'"
  shows "rel_prod (=) sim
     (case sys h c i of (Inl err, i2) \<Rightarrow> (Some (f err), i2) | (Inr out, i2) \<Rightarrow> (None, log i2 (g out)))
     (case sys h c i' of (Inl err, i2) \<Rightarrow> (Some (f err), i2) | (Inr out, i2) \<Rightarrow> (None, log i2 (g out)))"
  using assms by (simp add: sys_def sim_def log_def split: sum.splits)

lemma sim_executeMCP:
  assumes "sim i i'"
  shows "rel_prod (=) sim (executeMCP h s m x i) (executeMCP h s m x i')"
proof -
  define j where "j = log i (''  '' @ u_arrow @ '' MCP: '' @ s @ ''.'' @ m)"
  define j' where "j' = log i' (''  '' @ u_arrow @ '' MCP: '' @ s @ ''.'' @ m)"
  have s: "sim j j'"
    unfolding j_def j'_def using assms by (rule sim_log)
  then have d: "dryRun j = dryRun j'"
    by (simp add: sim_def)
  note facts = sim_sys_case [OF s] sim_finishMCP [OF s] sim_log [OF s]
  show ?thesis
    unfolding executeMCP_def Let_def j_def [symmetric] j'_def [symmetric] d
    by (simp add: facts split: option.splits)
qed

lemma sim_executeIncrementDecrement:
  assumes "sim i i'"
  shows "rel_prod (=) sim (executeIncrementDecrement h n op i) (executeIncrementDecrement h n op i')"
  using assms
  by (simp add: executeIncrementDecrement_def sim_def split: option.splits val.splits)

lemma executeIf_eq:
  "executeIf h c cons alt i =
     (if evalCondition h i c then executeStatements h cons i else executeStatements h alt i)"
  by simp

lemma dropAssignments_Cons:
  "dropAssignments (s # ss) =
     (if isAssignment s then dropAssignments ss else dropNested s # dropAssignments ss)"
  by (simp add: dropAssignments_def)

lemma dropAssignments_Nil [simp]: "dropAssignments [] = []"
  by (simp add: dropAssignments_def)

lemma rel_prodD:
  "rel_prod (=) R p q \<Longrightarrow> fst p = fst q \<and> R (snd p) (snd q)"
  by (cases p; cases q) simp

lemma sim_dropNested:
  "\<forall>i. sim i i' \<longrightarrow> rel_prod (=) sim (executeStatement h (dropNested stmt) i) (executeStatement h stmt i')"
  "\<forall>i. sim i i' \<longrightarrow> rel_prod (=) sim (executeStatements h (dropAssignments stmts) i) (executeStatements h stmts i')"
  "\<forall>i. sim i i' \<longrightarrow> rel_prod (=) sim (executeIf h c (dropAssignments cons) (dropAssignments alt) i) (executeIf h c cons alt i')"
  "\<forall>i. sim i i' \<longrightarrow> rel_prod (=) sim (executeRepeat h count (dropAssignments body) i) (executeRepeat h count body i')"
  "\<forall>i. sim i i' \<longrightarrow> rel_prod (=) sim (repeatLoop h j count (dropAssignments body) i) (repeatLoop h j count body i')"
proof (induction h stmt i' and h stmts i' and h c cons alt i' and h count body i' and h j count body i'
       rule: executeStatement_executeStatements_executeIf_executeRepeat_repeatLoop.induct)
  case (3 h cond consequence alternative i')
  then show ?case
    by (simp add: dropAssignments_def del: executeIf.simps)
next
  case (4 h count body i')
  then show ?case
    by (simp add: dropAssignments_def del: executeRepeat.simps)
next
  case (16 h count body i')
  then show ?case
    by simp
next
  case (14 h stmt stmts i')
  show ?case
  proof (intro allI impI)
    fix i :: "'a Interpreter"
    assume s: "sim i i'"
    show "rel_prod (=) sim (executeStatements h (dropAssignments (stmt # stmts)) i)
            (executeStatements h (stmt # stmts) i')"
    proof (cases "isAssignment stmt")
      case True
      then obtain n v where stmt: "stmt = Assignment n v"
        by (cases stmt) simp_all
      then have "executeStatement h stmt i' = (None, i')" by simp
      with 14(2) [of None i'] s show ?thesis
        by (simp add: stmt dropAssignments_Cons)
    next
      case False
      obtain e1 s1 where r1: "executeStatement h (dropNested stmt) i = (e1, s1)"
        by (cases "executeStatement h (dropNested stmt) i")
      obtain e2 s2 where r2: "executeStatement h stmt i' = (e2, s2)"
        by (cases "executeStatement h stmt i'")
      from 14(1) s r1 r2 have eq: "e1 = e2" and s12: "sim s1 s2"
        by auto
      show ?thesis
      proof (cases e2)
        case None
        with 14(2) [of e2 s2] r2 s12 have "rel_prod (=) sim (executeStatements h (dropAssignments stmts) s1)
            (executeStatements h stmts s2)"
          by simp
        with None eq r1 r2 False show ?thesis
          by (simp add: dropAssignments_Cons)
      next
        case (Some err)
        with eq r1 r2 s12 False show ?thesis
          by (simp add: dropAssignments_Cons)
      qed
    qed
  qed
next
  case (15 h cond consequence alternative i')
  show ?case
  proof (intro allI impI)
    fix i :: "'a Interpreter"
    assume s: "sim i i'"
    have c: "evalCondition h i cond = evalCondition h i' cond"
      using s by (rule sim_evalCondition)
    show "rel_prod (=) sim
            (executeIf h cond (dropAssignments consequence) (dropAssignments alternative) i)
            (executeIf h cond consequence alternative i')"
    proof (cases "evalCondition h i' cond")
      case True
      with 15(1) s c show ?thesis
        unfolding executeIf_eq by simp
    next
      case False
      show ?thesis
      proof (cases "alternative = []")
        case True
        with False c s show ?thesis
          unfolding executeIf_eq by simp
      next
        case ne: False
        with 15(2) False s c show ?thesis
          unfolding executeIf_eq by simp
      qed
    qed
  qed
next
  case (17 h j count body i')
  show ?case
  proof (intro allI impI)
    fix i :: "'a Interpreter"
    assume s: "sim i i'"
    show "rel_prod (=) sim (repeatLoop h j count (dropAssignments body) i)
            (repeatLoop h j count body i')"
    proof (cases "j < count")
      case False
      with s show ?thesis
        by (simp add: repeatLoop.simps)
    next
      case True
      let ?m = "''  [Repeat '' @ showInt (j + 1) @ ''/'' @ showInt count @ '']''"
      obtain e1 s1 where r1: "executeStatements h (dropAssignments body) (log i ?m) = (e1, s1)"
        by (cases "executeStatements h (dropAssignments body) (log i ?m)")
      obtain e2 s2 where r2: "executeStatements h body (log i' ?m) = (e2, s2)"
        by (cases "executeStatements h body (log i' ?m)")
      from 17(1) [OF True] sim_log [OF s, of ?m ?m] r1 r2 have eq: "e1 = e2" and s12: "sim s1 s2"
        by auto
      show ?thesis
      proof (cases e2)
        case None
        with 17(2) [OF True, of e2 s2] r2 s12
        have "rel_prod (=) sim (repeatLoop h (j + 1) count (dropAssignments body) s1)
                (repeatLoop h (j + 1) count body s2)"
          by simp
        with None eq r1 r2 True show ?thesis
          by (subst (1 2) repeatLoop.simps) simp
      next
        case (Some err)
        with eq r1 r2 s12 True show ?thesis
          by (subst (1 2) repeatLoop.simps) simp
      qed
    qed
  qed
qed (simp_all add: sim_executeAsk sim_executeShell sim_executeMCP sim_executeIncrementDecrement)

lemma executeHooks_filter:
  "executeHooks h (filter isHookStatement hooks) i = executeHooks h hooks i"
proof (induction hooks arbitrary: i)
  case Nil
  show ?case by simp
next
  case (Cons x xs)
  show ?case
    by (cases x) (simp_all add: Cons split: prod.splits option.splits)
qed

lemma sim_executeHook:
  assumes "sim i i'"
  shows "rel_prod (=) sim (executeHook h x i) (executeHook h x i')"
  using assms by (cases x) (simp_all add: sim_executeShell sim_executeMCP)

lemma sim_executeHooks:
  assumes "sim i i'"
  shows "rel_prod (=) sim (executeHooks h hooks i) (executeHooks h hooks i')"
  using assms
proof (induction hooks arbitrary: i i')
  case Nil
  then show ?case by simp
next
  case (Cons x xs)
  obtain e1 s1 where r1: "executeHook h x i = (e1, s1)"
    by (cases "executeHook h x i")
  obtain e2 s2 where r2: "executeHook h x i' = (e2, s2)"
    by (cases "executeHook h x i'")
  from sim_executeHook [OF Cons.prems, of h x] r1 r2 have eq: "e1 = e2" and s12: "sim s1 s2"
    by auto
  show ?case
    using Cons.IH [OF s12] eq s12 r1 r2 by (cases e2) simp_all
qed

lemma isHookStatement_dropNested [simp]: "isHookStatement (dropNested x) = isHookStatement x"
  by (cases x) simp_all

lemma dropNested_hook: "isHookStatement x \<Longrightarrow> dropNested x = x"
  by (cases x) simp_all

lemma filter_hooks_dropAssignments:
  "filter isHookStatement (dropAssignments xs) = filter isHookStatement xs"
proof (induction xs)
  case Nil
  show ?case by simp
next
  case (Cons x xs)
  then show ?case
    by (cases x) (simp_all add: dropAssignments_Cons)
qed

lemma sim_hooks_filter:
  assumes "sim i i'" and "filter isHookStatement xs = filter isHookStatement ys"
  shows "rel_prod (=) sim (executeHooks h xs i) (executeHooks h ys i')"
proof -
  have "rel_prod (=) sim (executeHooks h (filter isHookStatement xs) i)
          (executeHooks h (filter isHookStatement ys) i')"
    unfolding assms(2) using assms(1) by (rule sim_executeHooks)
  then show ?thesis
    by (simp add: executeHooks_filter)
qed

lemma sim_runBeforeHooks:
  assumes "sim i i'"
    and "filter isHookStatement (beforeHooks i) = filter isHookStatement (beforeHooks i')"
  shows "rel_prod (=) sim (runBeforeHooks h i) (runBeforeHooks h i')"
proof -
  let ?m = "rule3 @ '' Running Pre-Hooks '' @ rule3"
  have none: "executeHooks h [] j = (None, j)" for j :: "'a Interpreter"
    by simp
  have a: "rel_prod (=) sim (executeHooks h (beforeHooks i) (log i ?m))
             (executeHooks h (beforeHooks i') (log i' ?m))"
    using sim_log [OF assms(1)] assms(2) by (rule sim_hooks_filter)
  have b: "rel_prod (=) sim (executeHooks h (beforeHooks i) i)
             (executeHooks h (beforeHooks i') (log i' ?m))"
    using sim_log_right [OF assms(1)] assms(2) by (rule sim_hooks_filter)
  have c: "rel_prod (=) sim (executeHooks h (beforeHooks i) (log i ?m))
             (executeHooks h (beforeHooks i') i')"
    using sim_log_left [OF assms(1)] assms(2) by (rule sim_hooks_filter)
  show ?thesis
  proof (cases "beforeHooks i = []")
    case True
    note e1 = this
    show ?thesis
    proof (cases "beforeHooks i' = []")
      case True
      with e1 assms(1) show ?thesis
        by (simp add: runBeforeHooks_def)
    next
      case False
      with e1 b show ?thesis
        by (auto simp add: runBeforeHooks_def sim_log_right split: prod.splits option.splits)
    qed
  next
    case False
    note e1 = this
    show ?thesis
    proof (cases "beforeHooks i' = []")
      case True
      with e1 c show ?thesis
        by (auto simp add: runBeforeHooks_def sim_log_left split: prod.splits option.splits)
    next
      case False
      with e1 a show ?thesis
        by (auto simp add: runBeforeHooks_def sim_log split: prod.splits option.splits)
    qed
  qed
qed

lemma config_log [simp]: "config (log i m) = config i"
  by (simp add: config_def log_def)

lemma config_callClaudeCode [simp]: "config (snd (callClaudeCode h p i)) = config i"
  by (simp add: callClaudeCode_def Let_def sys_def config_def log_def split: sum.splits)

lemma config_executeAsk [simp]: "config (snd (executeAsk h x i)) = config i"
  by (simp add: executeAsk_def Let_def)

lemma config_executeShell [simp]: "config (snd (executeShell h x i)) = config i"
  by (simp add: executeShell_def Let_def sys_def config_def log_def split: sum.splits)

lemma config_finishMCP [simp]: "config (snd (finishMCP h c i)) = config i"
  by (simp add: finishMCP_def Let_def sys_def config_def log_def split: sum.splits option.splits)

lemma config_sys_case:
  "config (snd (case sys h c i of (Inl err, i2) \<Rightarrow> (Some (f err), i2)
                                | (Inr out, i2) \<Rightarrow> (None, log i2 (g out)))) = config i"
  by (simp add: sys_def config_def log_def split: sum.splits)

lemma config_executeMCP [simp]: "config (snd (executeMCP h s m x i)) = config i"
proof -
  define j where "j = log i (''  '' @ u_arrow @ '' MCP: '' @ s @ ''.'' @ m)"
  have j: "config j = config i"
    by (simp add: j_def)
  show ?thesis
    unfolding executeMCP_def Let_def j_def [symmetric]
    by (simp add: config_sys_case j split: option.splits)
qed

lemma config_executeIncrementDecrement [simp]:
  "config (snd (executeIncrementDecrement h n op i)) = config i"
  by (simp add: executeIncrementDecrement_def config_def split: option.splits val.splits)

lemma config_executeStatement:
  "config (snd (executeStatement h stmt i)) = config i"
  "config (snd (executeStatements h stmts i)) = config i"
  "config (snd (executeIf h c cons alt i)) = config i"
  "config (snd (executeRepeat h count body i)) = config i"
  "config (snd (repeatLoop h j count body i)) = config i"
proof (induction h stmt i and h stmts i and h c cons alt i and h count body i and h j count body i
       rule: executeStatement_executeStatements_executeIf_executeRepeat_repeatLoop.induct)
  case (14 h stmt stmts i)
  obtain e s where r: "executeStatement h stmt i = (e, s)"
    by (cases "executeStatement h stmt i")
  with 14(1) have c: "config s = config i" by simp
  show ?case
    using 14(2) [of e s] r c by (cases e) simp_all
next
  case (17 h j count body i)
  show ?case
  proof (cases "j < count")
    case False
    then show ?thesis by (simp add: repeatLoop.simps)
  next
    case True
    let ?m = "''  [Repeat '' @ showInt (j + 1) @ ''/'' @ showInt count @ '']''"
    obtain e s where r: "executeStatements h body (log i ?m) = (e, s)"
      by (cases "executeStatements h body (log i ?m)")
    with 17(1) [OF True] have c: "config s = config i" by simp
    show ?thesis
      using 17(2) [OF True, of e s] r c True
      by (subst repeatLoop.simps) (cases e; simp)
  qed
qed simp_all

lemma config_executeHooks [simp]: "config (snd (executeHooks h hooks i)) = config i"
proof (induction hooks arbitrary: i)
  case Nil
  show ?case by simp
next
  case (Cons x xs)
  have c: "config (snd (executeHook h x i)) = config i"
    by (cases x) simp_all
  obtain e s where r: "executeHook h x i = (e, s)"
    by (cases "executeHook h x i")
  show ?case
    using Cons [of s] c r by (cases e) simp_all
qed

lemma config_runBeforeHooks [simp]: "config (snd (runBeforeHooks h i)) = config i"
proof -
  let ?m = "rule3 @ '' Running Pre-Hooks '' @ rule3"
  obtain e s where r: "executeHooks h (beforeHooks i) (log i ?m) = (e, s)"
    by (cases "executeHooks h (beforeHooks i) (log i ?m)")
  have "config (snd (executeHooks h (beforeHooks i) (log i ?m))) = config i"
    by simp
  then have "config s = config i"
    unfolding r by simp
  then show ?thesis
    using r by (cases e) (simp_all add: runBeforeHooks_def)
qed

lemma sameHooks_config:
  "config j = config i \<Longrightarrow> config j' = config i' \<Longrightarrow> sameHooks i i' \<Longrightarrow> sameHooks j j'"
  by (simp add: sameHooks_def config_def)

lemma collectStatement_dropNested:
  assumes "sim i i'" and "sameHooks i i'"
  shows "sim (collectStatement (dropNested s) i) (collectStatement s i') \<and>
         sameHooks (collectStatement (dropNested s) i) (collectStatement s i')"
proof -
  have v: "variables i = variables i'"
    using assms(1) by (simp add: sim_def)
  have f: "filter isHookStatement (map dropNested (filter (\<lambda>s. \<not> isAssignment s) xs))
             = filter isHookStatement xs" for xs :: "'a node list"
    using filter_hooks_dropAssignments [of xs] by (simp add: dropAssignments_def)
  show ?thesis
    using assms
    by (cases s) (simp_all add: sim_def sameHooks_def sim_evalValue [OF v] f)
qed

lemma collect_dropNested:
  assumes "sim i i'" and "sameHooks i i'"
  shows "sim (collect (map dropNested p) i) (collect p i') \<and>
         sameHooks (collect (map dropNested p) i) (collect p i')"
  using assms
proof (induction p arbitrary: i i')
  case Nil
  then show ?case by simp
next
  case (Cons s p)
  from collectStatement_dropNested [OF Cons.prems, of s] Cons.IH show ?case
    by simp
qed

lemma sim_banner: "sim i i' \<Longrightarrow> sim (banner h i) (banner h i')"
  unfolding banner_def Let_def by (intro sim_log)

lemma config_banner [simp]: "config (banner h i) = config i"
  by (simp add: banner_def Let_def)

lemma sim_map_dropNested:
  assumes "sim i i'"
  shows "rel_prod (=) sim (executeStatements h (map dropNested p) i) (executeStatements h p i')"
  using assms
proof (induction p arbitrary: i i')
  case Nil
  then show ?case by simp
next
  case (Cons s p)
  obtain e1 s1 where r1: "executeStatement h (dropNested s) i = (e1, s1)"
    by (cases "executeStatement h (dropNested s) i")
  obtain e2 s2 where r2: "executeStatement h s i' = (e2, s2)"
    by (cases "executeStatement h s i'")
  from sim_dropNested(1) [of i' h s] Cons.prems r1 r2 have eq: "e1 = e2" and s12: "sim s1 s2"
    by auto
  show ?case
    using Cons.IH [OF s12] eq s12 r1 r2 by (cases e2) simp_all
qed

lemma executeHooks_no_hooks:
  "filter isHookStatement hooks = [] \<Longrightarrow> executeHooks h hooks i = (None, i)"
  using executeHooks_filter [of h hooks i] by simp

lemma sim_runAfterHooks:
  assumes "sim i i'"
    and "filter isHookStatement (afterHooks i) = filter isHookStatement (afterHooks i')"
  shows "rel_prod (=) sim (runAfterHooks h i) (runAfterHooks h i')"
proof -
  let ?m = "rule3 @ '' Running Post-Hooks '' @ rule3"
  have a: "rel_prod (=) sim (executeHooks h (afterHooks i) (log (log i []) ?m))
             (executeHooks h (afterHooks i') (log (log i' []) ?m))"
    using sim_log [OF sim_log [OF assms(1)]] assms(2) by (rule sim_hooks_filter)
  show ?thesis
  proof (cases "afterHooks i = []")
    case True
    note e1 = this
    show ?thesis
    proof (cases "afterHooks i' = []")
      case True
      with e1 assms(1) show ?thesis
        by (simp add: runAfterHooks_def)
    next
      case False
      from e1 assms(2) have "filter isHookStatement (afterHooks i') = []"
        by simp
      then have "executeHooks h (afterHooks i') (log (log i' []) ?m) = (None, log (log i' []) ?m)"
        by (rule executeHooks_no_hooks)
      with e1 False assms(1) show ?thesis
        by (simp add: runAfterHooks_def sim_log_right)
    qed
  next
    case False
    note e1 = this
    show ?thesis
    proof (cases "afterHooks i' = []")
      case True
      with assms(2) have "filter isHookStatement (afterHooks i) = []"
        by simp
      then have "executeHooks h (afterHooks i) (log (log i []) ?m) = (None, log (log i []) ?m)"
        by (rule executeHooks_no_hooks)
      with e1 True assms(1) show ?thesis
        by (simp add: runAfterHooks_def sim_log_left)
    next
      case False
      obtain e1' s1 where r1: "executeHooks h (afterHooks i) (log (log i []) ?m) = (e1', s1)"
        by (cases "executeHooks h (afterHooks i) (log (log i []) ?m)")
      obtain e2 s2 where r2: "executeHooks h (afterHooks i') (log (log i' []) ?m) = (e2, s2)"
        by (cases "executeHooks h (afterHooks i') (log (log i' []) ?m)")
      from a r1 r2 have "e1' = e2" "sim s1 s2"
        by simp_all
      with e1 False r1 r2 show ?thesis
        by (cases e2) (simp_all add: runAfterHooks_def)
    qed
  qed
qed

lemma rel_andThen:
  assumes "rel_prod (=) R r r'"
    and "\<And>i i'. R i i' \<Longrightarrow> rel_prod (=) R (f i) (f' i')"
  shows "rel_prod (=) R (andThen r f) (andThen r' f')"
  using assms by (cases r; cases r') (auto simp: andThen_def split: option.splits)

lemma Execute_andThen:
  "Execute h program i0 =
     andThen (runBeforeHooks h (banner h (collect (Statements program) i0)))
       (\<lambda>i2. andThen (executeStatements h (Statements program)
                        (log i2 (rule3 @ '' Executing Build Steps '' @ rule3)))
          (\<lambda>i3. andThen (runAfterHooks h i3)
             (\<lambda>i4. (None, log (log i4 []) (rule3 @ '' Build Complete '' @ rule3)))))"
  by (simp add: Execute_def andThen_def Let_def split: prod.splits option.splits)

lemma simH_step:
  assumes "rel_prod (=) sim r r'" and "config (snd r) = config i" and "config (snd r') = config i'"
    and "sameHooks i i'"
  shows "rel_prod (=) simH r r'"
  using assms sameHooks_config [of "snd r" i "snd r'" i']
  by (cases r; cases r') (simp add: simH_def)

lemma config_runAfterHooks [simp]: "config (snd (runAfterHooks h i)) = config i"
proof -
  let ?m = "rule3 @ '' Running Post-Hooks '' @ rule3"
  obtain e s where r: "executeHooks h (afterHooks i) (log (log i []) ?m) = (e, s)"
    by (cases "executeHooks h (afterHooks i) (log (log i []) ?m)")
  have "config (snd (executeHooks h (afterHooks i) (log (log i []) ?m))) = config i"
    by simp
  then have "config s = config i"
    unfolding r by simp
  then show ?thesis
    using r by (cases e) (simp_all add: runAfterHooks_def)
qed

lemma Execute_dropNested:
  "rel_prod (=) simH (Execute h (Program (map dropNested p)) i0) (Execute h (Program p) i0)"
proof -
  have "sim i0 i0" "sameHooks i0 i0"
    by (simp_all add: sameHooks_def)
  then have c: "sim (collect (map dropNested p) i0) (collect p i0)"
      "sameHooks (collect (map dropNested p) i0) (collect p i0)"
    using collect_dropNested [of i0 i0 p] by simp_all
  have s1: "sim (banner h (collect (map dropNested p) i0)) (banner h (collect p i0))"
    using c(1) by (rule sim_banner)
  have h1: "sameHooks (banner h (collect (map dropNested p) i0)) (banner h (collect p i0))"
    using _ _ c(2) by (rule sameHooks_config) simp_all
  have before: "rel_prod (=) simH (runBeforeHooks h (banner h (collect (map dropNested p) i0)))
                  (runBeforeHooks h (banner h (collect p i0)))"
  proof (rule simH_step [OF _ _ _ h1])
    show "rel_prod (=) sim (runBeforeHooks h (banner h (collect (map dropNested p) i0)))
            (runBeforeHooks h (banner h (collect p i0)))"
      using s1 h1 by (intro sim_runBeforeHooks) (simp_all add: sameHooks_def)
  qed simp_all
  have main: "rel_prod (=) simH (executeStatements h (map dropNested p) (log i m))
                (executeStatements h p (log i' m))" if "simH i i'" for i i' m
  proof (rule simH_step)
    show "rel_prod (=) sim (executeStatements h (map dropNested p) (log i m))
            (executeStatements h p (log i' m))"
      using that by (intro sim_map_dropNested sim_log) (simp add: simH_def)
    show "sameHooks i i'"
      using that by (simp add: simH_def)
  qed (simp_all add: config_executeStatement)
  have after: "rel_prod (=) simH (runAfterHooks h i) (runAfterHooks h i')" if "simH i i'" for i i'
  proof (rule simH_step)
    show "rel_prod (=) sim (runAfterHooks h i) (runAfterHooks h i')"
      using that by (intro sim_runAfterHooks) (simp_all add: simH_def sameHooks_def)
    show "sameHooks i i'"
      using that by (simp add: simH_def)
  qed simp_all
  have fin: "rel_prod (=) simH (None, log (log i []) m) (None, log (log i' []) m)"
    if "simH i i'" for i i' m
    using that sameHooks_config [of "log (log i []) m" i "log (log i' []) m" i']
    by (simp add: simH_def sim_log)
  show ?thesis
    unfolding Execute_andThen Program.sel
    by (intro rel_andThen before main after fin)
qed

lemma repeatLoop_forEach:
  "0 \<le> j \<Longrightarrow> repeatLoop h j count body i
     = forEach (repeatRound h count body) [nat j..<nat count] i"
proof (induction "nat (count - j)" arbitrary: j i)
  case 0
  then have "\<not> j < count" by simp
  with 0 show ?case
    by (subst repeatLoop.simps) simp
next
  case (Suc k)
  then have lt: "j < count" by simp
  from Suc(2,3) have k: "k = nat (count - (j + 1))" and nn: "0 \<le> j + 1"
    by simp_all
  have upt: "[nat j..<nat count] = nat j # [nat (j + 1)..<nat count]"
    using lt Suc(3) by (simp add: upt_conv_Cons nat_add_distrib)
  have ih: "repeatLoop h (j + 1) count body i'
              = forEach (repeatRound h count body) [nat (j + 1)..<nat count] i'" for i'
    using Suc(1) [OF k nn] .
  show ?case
    using lt Suc(3)
    by (subst repeatLoop.simps) (simp add: upt ih repeatRound_def split: prod.splits option.splits)
qed

lemma executeRepeat_forEach:
  "executeStatement h (RepeatStatement count body) i
     = forEach (repeatRound h count body) [0..<nat count] i"
  using repeatLoop_forEach [of 0 h count body i] by simp

lemma syscalls_log [simp]: "syscalls (log i m) = syscalls i"
  by (simp add: log_def)

lemma variables_log [simp]: "variables (log i m) = variables i"
  by (simp add: log_def)

lemma executeAsk_call:
  assumes "\<not> dryRun i"
  shows "fst (executeAsk h x i) = None"
    and "syscalls (snd (executeAsk h x i))
       = syscalls i @ [Exec (claudeCLI i) (claudeArgs i (buildPrompt h x (variables i)))]"
    and "variables (snd (executeAsk h x i)) = variables i"
  using assms
  by (simp_all add: executeAsk_def callClaudeCode_def Let_def sys_def log_def claudeArgs_def
        buildContext_def split: sum.splits)

lemma ask_after_log:
  assumes "\<not> dryRun i"
  shows "fst (executeStatements h [AskStatement x] (log i m)) = None"
    and "syscalls (snd (executeStatements h [AskStatement x] (log i m)))
       = syscalls i @ [Exec (claudeCLI i) (claudeArgs i (buildPrompt h x (variables i)))]"
    and "variables (snd (executeStatements h [AskStatement x] (log i m))) = variables i"
    and "config (snd (executeStatements h [AskStatement x] (log i m))) = config i"
proof -
  have d: "\<not> dryRun (log i m)"
    using assms by (simp add: log_def)
  obtain e i2 where r: "executeAsk h x (log i m) = (e, i2)"
    by (cases "executeAsk h x (log i m)")
  from executeAsk_call [OF d, of h x] r
  have e: "e = None" and sc: "syscalls i2 = syscalls i
      @ [Exec (claudeCLI i) (claudeArgs i (buildPrompt h x (variables i)))]"
    and v: "variables i2 = variables i"
    by (simp_all add: claudeArgs_def log_def)
  have "config (snd (executeAsk h x (log i m))) = config i"
    by simp
  then have c: "config i2 = config i"
    unfolding r by simp
  show "fst (executeStatements h [AskStatement x] (log i m)) = None"
    and "syscalls (snd (executeStatements h [AskStatement x] (log i m)))
       = syscalls i @ [Exec (claudeCLI i) (claudeArgs i (buildPrompt h x (variables i)))]"
    and "variables (snd (executeStatements h [AskStatement x] (log i m))) = variables i"
    and "config (snd (executeStatements h [AskStatement x] (log i m))) = config i"
    using e sc v c by (simp_all add: r)
qed

lemma forEach_ask:
  assumes "\<not> dryRun i"
  shows "fst (forEach (repeatRound h count [AskStatement x]) js i) = None \<and>
         syscalls (snd (forEach (repeatRound h count [AskStatement x]) js i))
           = syscalls i @ replicate (length js)
               (Exec (claudeCLI i) (claudeArgs i (buildPrompt h x (variables i))))"
  using assms
proof (induction js arbitrary: i)
  case Nil
  show ?case by simp
next
  case (Cons j js)
  obtain e i2 where r: "repeatRound h count [AskStatement x] j i = (e, i2)"
    by (cases "repeatRound h count [AskStatement x] j i")
  have "fst (repeatRound h count [AskStatement x] j i) = None"
    and "syscalls (snd (repeatRound h count [AskStatement x] j i)) = syscalls i
      @ [Exec (claudeCLI i) (claudeArgs i (buildPrompt h x (variables i)))]"
    and "variables (snd (repeatRound h count [AskStatement x] j i)) = variables i"
    and "config (snd (repeatRound h count [AskStatement x] j i)) = config i"
    unfolding repeatRound_def by (rule ask_after_log [OF Cons.prems])+
  then have e: "e = None" and sc: "syscalls i2 = syscalls i
      @ [Exec (claudeCLI i) (claudeArgs i (buildPrompt h x (variables i)))]"
    and v: "variables i2 = variables i" and c: "config i2 = config i"
    unfolding r by simp_all
  from c have d2: "\<not> dryRun i2" and cli: "claudeCLI i2 = claudeCLI i"
    and args: "claudeArgs i2 = claudeArgs i"
    using Cons.prems by (simp_all add: config_def claudeArgs_def fun_eq_iff)
  show ?case
    using Cons.IH [OF d2] e
    by (simp add: r sc v cli args replicate_append_same)
qed

lemma executeHooks_append:
  "executeHooks h (xs @ ys) i = andThen (executeHooks h xs i) (executeHooks h ys)"
  by (induction xs arbitrary: i) (simp_all add: andThen_def split: prod.splits option.splits)

lemma executeStatements_append:
  "executeStatements h (xs @ ys) i = andThen (executeStatements h xs i) (executeStatements h ys)"
  by (induction xs arbitrary: i) (simp_all add: andThen_def split: prod.splits option.splits)

lemma beforeHooks_banner [simp]: "beforeHooks (banner h i) = beforeHooks i"
  using config_banner [of h i] by (simp add: config_def del: config_banner)

lemma executeAsk_never_fails: "fst (executeAsk h x i) = None"
  by (simp add: executeAsk_def callClaudeCode_def Let_def sys_def split: sum.splits)

lemma runBeforeHooks_failure:
  assumes "beforeHooks i = pre @ hook # post"
    and "executeHooks h pre (log i preHooksLine) = (None, i2)"
    and "executeHook h hook i2 = (Some err, i3)"
  shows "runBeforeHooks h i = (Some (Errorf ''before hook failed'' err), i3)"
proof -
  have "executeHooks h (beforeHooks i) (log i preHooksLine) = (Some err, i3)"
    unfolding assms(1) executeHooks_append assms(2) by (simp add: andThen_def assms(3))
  moreover have "beforeHooks i \<noteq> []"
    using assms(1) by simp
  ultimately show ?thesis
    unfolding runBeforeHooks_def preHooksLine_def by simp
qed

lemma Execute_before_failure:
  assumes "runBeforeHooks h (banner h (collect (Statements program) i0)) = (Some err, i3)"
  shows "Execute h program i0 = (Some err, i3)"
  unfolding Execute_andThen assms by (simp add: andThen_def)

lemma claudeArgs_log [simp]: "claudeArgs (log i m) p = claudeArgs i p"
  by (simp add: claudeArgs_def log_def)

lemma claudeCLI_log [simp]: "claudeCLI (log i m) = claudeCLI i"
  by (simp add: log_def)

lemma dryRun_log [simp]: "dryRun (log i m) = dryRun i"
  by (simp add: log_def)

lemma verbose_log [simp]: "verbose (log i m) = verbose i"
  by (simp add: log_def)

lemma callClaudeCode_failure:
  assumes "os_call h (syscalls i) (Exec (claudeCLI i) (claudeArgs i prompt)) = Inl e"
  shows "callClaudeCode h prompt i =
     (None, log (log ((log i (''  '' @ u_arrow @ '' Calling Claude Code CLI...''))
                        \<lparr>syscalls := syscalls i @ [Exec (claudeCLI i) (claudeArgs i prompt)]\<rparr>)
                  warnLine)
              (''  '' @ u_arrow @ '' Prompt would be: '' @ truncateString prompt 100))"
proof -
  have "sys h (Exec (claudeCLI (log i m)) (claudeArgs (log i m) prompt)) (log i m)
          = (Inl e, (log i m)\<lparr>syscalls := syscalls i @ [Exec (claudeCLI i) (claudeArgs i prompt)]\<rparr>)"
    for m
    using assms by (simp add: sys_def)
  then show ?thesis
    unfolding callClaudeCode_def Let_def warnLine_def by simp
qed

lemma executeAsk_failure:
  assumes "\<not> dryRun i"
    and "os_call h (syscalls i)
           (Exec (claudeCLI i) (claudeArgs i (buildPrompt h x (variables i)))) = Inl e"
  shows "\<exists>i'. executeAsk h x i =
           (None, log (log i' warnLine)
                    (''  '' @ u_arrow @ '' Prompt would be: ''
                     @ truncateString (buildPrompt h x (variables i)) 100)) \<and>
          syscalls i' = syscalls i
            @ [Exec (claudeCLI i) (claudeArgs i (buildPrompt h x (variables i)))]"
proof -
  define j where "j = log (log (log (log i []) (u_sgl_tl @ concat (replicate 61 u_sgl) @ u_sgl_tr))
               (u_sgl_v @ '' ASK: '' @ truncateString x 53))
               (u_sgl_bl @ concat (replicate 61 u_sgl) @ u_sgl_br)"
  have j: "syscalls j = syscalls i" "claudeCLI j = claudeCLI i" "claudeArgs j = claudeArgs i"
    "variables j = variables i" "\<not> dryRun j"
    using assms(1) by (simp_all add: j_def fun_eq_iff)
  have a: "executeAsk h x i = callClaudeCode h (buildPrompt h x (variables i)) j"
    unfolding executeAsk_def Let_def j_def [symmetric] buildContext_def using j by simp
  have "os_call h (syscalls j)
          (Exec (claudeCLI j) (claudeArgs j (buildPrompt h x (variables i)))) = Inl e"
    using assms(2) j by simp
  from callClaudeCode_failure [OF this] show ?thesis
    unfolding a using j by (intro exI conjI) (assumption, simp)
qed

lemma syscalls_collect [simp]: "syscalls (collect p i) = syscalls i"
proof (induction p arbitrary: i)
  case Nil
  show ?case by simp
next
  case (Cons s p)
  have "syscalls (collectStatement s i) = syscalls i"
    by (cases s) simp_all
  with Cons show ?case by simp
qed

lemma outputWriter_collect [simp]: "outputWriter (collect p i) = outputWriter i"
proof (induction p arbitrary: i)
  case Nil
  show ?case by simp
next
  case (Cons s p)
  have "outputWriter (collectStatement s i) = outputWriter i"
    by (cases s) simp_all
  with Cons show ?case by simp
qed

lemma config_collect_flags:
  "dryRun (collect p i) = dryRun i \<and> verbose (collect p i) = verbose i \<and>
   claudeCLI (collect p i) = claudeCLI i \<and> skipPermissions (collect p i) = skipPermissions i \<and>
   model (collect p i) = model i"
proof (induction p arbitrary: i)
  case Nil
  show ?case by simp
next
  case (Cons s p)
  have "dryRun (collectStatement s i) = dryRun i \<and> verbose (collectStatement s i) = verbose i \<and>
   claudeCLI (collectStatement s i) = claudeCLI i \<and>
   skipPermissions (collectStatement s i) = skipPermissions i \<and>
   model (collectStatement s i) = model i"
    by (cases s) simp_all
  with Cons [of "collectStatement s i"] show ?case by simp
qed

lemma syscalls_banner [simp]: "syscalls (banner h i) = syscalls i"
  by (simp add: banner_def Let_def)

lemma variables_banner [simp]: "variables (banner h i) = variables i"
  by (simp add: banner_def Let_def)

lemma dryRun_banner [simp]: "dryRun (banner h i) = dryRun i"
  using config_banner [of h i] by (simp add: config_def del: config_banner)

lemma executeShell_failure:
  assumes "\<not> dryRun i" and "os_call h (syscalls i) (Exec ''sh'' [''-c'', c]) = Inl e"
  shows "fst (executeShell h c i) = Some (Errorf ''shell command failed'' e)"
    and "syscalls (snd (executeShell h c i)) = syscalls i @ [Exec ''sh'' [''-c'', c]]"
  using assms by (simp_all add: executeShell_def Let_def sys_def)

lemma variables_executeAsk [simp]: "variables (snd (executeAsk h x i)) = variables i"
  by (simp add: executeAsk_def callClaudeCode_def Let_def sys_def split: sum.splits)

lemma variables_executeShell [simp]: "variables (snd (executeShell h x i)) = variables i"
  by (simp add: executeShell_def Let_def sys_def split: sum.splits)

lemma variables_finishMCP [simp]: "variables (snd (finishMCP h c i)) = variables i"
  by (simp add: finishMCP_def Let_def sys_def split: sum.splits option.splits)

lemma variables_sys_case:
  "variables (snd (case sys h c i of (Inl err, i2) \<Rightarrow> (Some (f err), i2)
                                | (Inr out, i2) \<Rightarrow> (None, log i2 (g out)))) = variables i"
  by (simp add: sys_def split: sum.splits)

lemma variables_executeMCP [simp]: "variables (snd (executeMCP h s m x i)) = variables i"
proof -
  define j where "j = log i (''  '' @ u_arrow @ '' MCP: '' @ s @ ''.'' @ m)"
  have j: "variables j = variables i"
    by (simp add: j_def)
  show ?thesis
    unfolding executeMCP_def Let_def j_def [symmetric]
    by (simp add: variables_sys_case j split: option.splits)
qed

lemma variables_executeHooks [simp]: "variables (snd (executeHooks h hooks i)) = variables i"
proof (induction hooks arbitrary: i)
  case Nil
  show ?case by simp
next
  case (Cons x xs)
  have c: "variables (snd (executeHook h x i)) = variables i"
    by (cases x) simp_all
  obtain e s where r: "executeHook h x i = (e, s)"
    by (cases "executeHook h x i")
  show ?case
    using Cons [of s] c r by (cases e) simp_all
qed

lemma variables_runBeforeHooks [simp]: "variables (snd (runBeforeHooks h i)) = variables i"
proof -
  obtain e s where r: "executeHooks h (beforeHooks i) (log i preHooksLine) = (e, s)"
    by (cases "executeHooks h (beforeHooks i) (log i preHooksLine)")
  have "variables (snd (executeHooks h (beforeHooks i) (log i preHooksLine))) = variables i"
    by simp
  then have "variables s = variables i"
    unfolding r by simp
  then show ?thesis
    using r unfolding runBeforeHooks_def preHooksLine_def by (cases e) simp_all
qed

lemma variables_untouched:
  "\<not> touches name stmt \<longrightarrow> variables (snd (executeStatement h stmt i)) name = variables i name"
  "\<not> list_ex (touches name) stmts \<longrightarrow>
     variables (snd (executeStatements h stmts i)) name = variables i name"
  "\<not> list_ex (touches name) cons \<and> \<not> list_ex (touches name) alt \<longrightarrow>
     variables (snd (executeIf h c cons alt i)) name = variables i name"
  "\<not> list_ex (touches name) body \<longrightarrow>
     variables (snd (executeRepeat h count body i)) name = variables i name"
  "\<not> list_ex (touches name) body \<longrightarrow>
     variables (snd (repeatLoop h j count body i)) name = variables i name"
proof (induction h stmt i and h stmts i and h c cons alt i and h count body i and h j count body i
       rule: executeStatement_executeStatements_executeIf_executeRepeat_repeatLoop.induct)
  case (3 h cond consequence alternative i)
  then show ?case
    by (simp del: executeIf.simps)
next
  case (4 h count body i)
  then show ?case
    by (simp del: executeRepeat.simps)
next
  case (7 h n operator i)
  show ?case
    by (simp add: executeIncrementDecrement_def split: option.splits val.splits)
next
  case (14 h stmt stmts i)
  obtain e s where r: "executeStatement h stmt i = (e, s)"
    by (cases "executeStatement h stmt i")
  show ?case
    using 14(1) 14(2) [of e s] r by (cases e) simp_all
next
  case (15 h cond consequence alternative i)
  then show ?case
    by simp
next
  case (16 h count body i)
  then show ?case
    by simp
next
  case (17 h j count body i)
  show ?case
  proof (cases "j < count")
    case False
    then show ?thesis by (simp add: repeatLoop.simps)
  next
    case True
    let ?m = "''  [Repeat '' @ showInt (j + 1) @ ''/'' @ showInt count @ '']''"
    obtain e s where r: "executeStatements h body (log i ?m) = (e, s)"
      by (cases "executeStatements h body (log i ?m)")
    show ?thesis
      using 17(1) [OF True] 17(2) [OF True, of e s] r True
      by (subst repeatLoop.simps) (cases e; simp)
  qed
qed simp_all

lemma collect_append: "collect (xs @ ys) i = collect ys (collect xs i)"
  by (induction xs arbitrary: i) simp_all

lemma collect_unassigned:
  "\<not> list_ex (assigns name) b \<Longrightarrow> variables (collect b i) name = variables i name"
proof (induction b arbitrary: i)
  case Nil
  show ?case by simp
next
  case (Cons s b)
  then have "variables (collectStatement s i) name = variables i name"
    by (cases s) auto
  with Cons show ?case by simp
qed

lemma collect_final_value:
  assumes "\<not> list_ex (assigns name) b"
  shows "variables (collect (a @ Assignment name v # b) i) name = Some (evalValue (collect a i) v)"
  using collect_unassigned [OF assms] by (simp add: collect_append)

lemma flags_of_config:
  assumes "config j = config i"
  shows "dryRun j = dryRun i" "claudeCLI j = claudeCLI i" "claudeArgs j = claudeArgs i"
  using assms by (simp_all add: config_def claudeArgs_def fun_eq_iff)

lemma Execute_at_ask:
  assumes "runBeforeHooks h (banner h (collect (pre @ AskStatement x # post) i0)) = (None, i2)"
    and "executeStatements h pre (log i2 stepsLine) = (None, i3)"
  shows "Execute h (Program (pre @ AskStatement x # post)) i0 =
        andThen (executeStatement h (AskStatement x) i3)
          (\<lambda>i4. andThen (executeStatements h post i4)
             (\<lambda>i5. andThen (runAfterHooks h i5)
                (\<lambda>i6. (None, log (log i6 []) completeLine))))"
proof -
  have split: "executeStatements h (pre @ AskStatement x # post) (log i2 stepsLine)
      = andThen (executeStatement h (AskStatement x) i3) (executeStatements h post)"
    unfolding executeStatements_append assms(2)
    by (simp add: andThen_def split: prod.splits option.splits)
  have assoc: "andThen (andThen r f) g = andThen r (\<lambda>i. andThen (f i) g)"
    for r :: "error option \<times> 's" and f g
    by (cases r) (simp add: andThen_def split: option.splits)
  show ?thesis
    unfolding Execute_andThen Program.sel assms(1) stepsLine_def [symmetric]
      completeLine_def [symmetric]
    by (simp add: andThen_def [of "(None, i2)"] split assoc)
qed

lemma forEach_all_succeed:
  "(\<And>k. k < length js \<Longrightarrow> fst (f (js ! k) (fold (\<lambda>j s. snd (f j s)) (take k js) i)) = None)
   \<Longrightarrow> forEach f js i = (None, fold (\<lambda>j s. snd (f j s)) js i)"
proof (induction js arbitrary: i)
  case Nil
  show ?case by simp
next
  case (Cons j js)
  obtain e s where r: "f j i = (e, s)"
    by (cases "f j i")
  from Cons.prems [of 0] r have e: "e = None"
    by simp
  have "fst (f (js ! k) (fold (\<lambda>j s. snd (f j s)) (take k js) s)) = None" if "k < length js" for k
    using Cons.prems [of "Suc k"] that r by simp
  then have "forEach f js s = (None, fold (\<lambda>j s. snd (f j s)) js s)"
    by (rule Cons.IH)
  then show ?case
    by (simp add: r e)
qed

lemma forEach_first_failure:
  "k < length js \<Longrightarrow>
   (\<And>m. m < k \<Longrightarrow> fst (f (js ! m) (fold (\<lambda>j s. snd (f j s)) (take m js) i)) = None) \<Longrightarrow>
   fst (f (js ! k) (fold (\<lambda>j s. snd (f j s)) (take k js) i)) = Some err \<Longrightarrow>
   forEach f js i = (Some err, snd (f (js ! k) (fold (\<lambda>j s. snd (f j s)) (take k js) i)))"
proof (induction js arbitrary: i k)
  case Nil
  then show ?case by simp
next
  case (Cons j js)
  obtain e s where r: "f j i = (e, s)"
    by (cases "f j i")
  show ?case
  proof (cases k)
    case 0
    with Cons.prems(3) r show ?thesis
      by simp
  next
    case (Suc k')
    from Cons.prems(2) [of 0] r Suc have e: "e = None"
      by simp
    have lt: "k' < length js"
      using Cons.prems(1) Suc by simp
    have ok: "fst (f (js ! m) (fold (\<lambda>j s. snd (f j s)) (take m js) s)) = None" if "m < k'" for m
      using Cons.prems(2) [of "Suc m"] that r Suc by simp
    have bad: "fst (f (js ! k') (fold (\<lambda>j s. snd (f j s)) (take k' js) s)) = Some err"
      using Cons.prems(3) r Suc by simp
    from Cons.IH [OF lt ok bad]
    show ?thesis
      by (simp add: r e Suc)
  qed
qed

lemma take_upt_0: "k \<le> n \<Longrightarrow> take k [0..<n] = [0..<k]"
  by (simp add: take_upt)

lemma executeRepeat_all_succeed:
  assumes "\<forall>j < nat count. fst (repeatRound h count body j (afterRounds h count body j i)) = None"
  shows "executeStatement h (RepeatStatement count body) i
           = (None, afterRounds h count body (nat count) i)"
proof -
  have "forEach (repeatRound h count body) [0..<nat count] i
          = (None, fold (\<lambda>j s. snd (repeatRound h count body j s)) [0..<nat count] i)"
  proof (rule forEach_all_succeed)
    fix k assume k: "k < length [0..<nat count]"
    then have "take k [0..<nat count] = [0..<k]" "[0..<nat count] ! k = k"
      by (simp_all add: take_upt)
    with assms k show "fst (repeatRound h count body ([0..<nat count] ! k)
            (fold (\<lambda>j s. snd (repeatRound h count body j s)) (take k [0..<nat count]) i)) = None"
      by (simp add: afterRounds_def)
  qed
  then show ?thesis
    unfolding executeRepeat_forEach afterRounds_def .
qed

lemma executeRepeat_first_failure:
  assumes "k < nat count"
    and "\<forall>j < k. fst (repeatRound h count body j (afterRounds h count body j i)) = None"
    and "fst (repeatRound h count body k (afterRounds h count body k i)) = Some err"
  shows "executeStatement h (RepeatStatement count body) i
           = (Some err, snd (repeatRound h count body k (afterRounds h count body k i)))"
proof -
  have len: "k < length [0..<nat count]"
    using assms(1) by simp
  have t: "take m [0..<nat count] = [0..<m]" "[0..<nat count] ! m = m" if "m \<le> k" for m
    using that assms(1) by (simp_all add: take_upt)
  have "forEach (repeatRound h count body) [0..<nat count] i
          = (Some err, snd (repeatRound h count body ([0..<nat count] ! k)
               (fold (\<lambda>j s. snd (repeatRound h count body j s)) (take k [0..<nat count]) i)))"
  proof (rule forEach_first_failure [OF len])
    fix m assume m: "m < k"
    with assms(2) show "fst (repeatRound h count body ([0..<nat count] ! m)
            (fold (\<lambda>j s. snd (repeatRound h count body j s)) (take m [0..<nat count]) i)) = None"
      using t [of m] by (simp add: afterRounds_def)
  next
    show "fst (repeatRound h count body ([0..<nat count] ! k)
            (fold (\<lambda>j s. snd (repeatRound h count body j s)) (take k [0..<nat count]) i)) = Some err"
      using assms(3) t [of k] by (simp add: afterRounds_def)
  qed
  then show ?thesis
    unfolding executeRepeat_forEach using t [of k] by (simp add: afterRounds_def)
qed

lemma continues_refl [simp]: "continues i i"
  by (simp add: continues_def)

lemma continues_trans: "continues i j \<Longrightarrow> continues j k \<Longrightarrow> continues i k"
  by (auto simp add: continues_def)

lemma continues_log_left [simp]: "continues (log i m) j = continues i j"
  by (simp add: continues_def)

lemma continues_log_right [simp]: "continues i (log j m) = continues i j"
  by (simp add: continues_def)

lemma continues_sys: "continues i (snd (sys h c i))"
  by (simp add: continues_def sys_def)

lemma continues_sys_case:
  "continues i (snd (case sys h c i of (Inl err, i2) \<Rightarrow> (Some (f err), i2)
                                | (Inr out, i2) \<Rightarrow> (None, log i2 (g out))))"
  by (simp add: sys_def continues_def split: sum.splits)

lemma continues_executeAsk: "continues i (snd (executeAsk h x i))"
  by (simp add: executeAsk_def callClaudeCode_def Let_def sys_def continues_def split: sum.splits)

lemma continues_executeShell: "continues i (snd (executeShell h x i))"
  by (simp add: executeShell_def Let_def sys_def continues_def split: sum.splits)

lemma continues_finishMCP: "continues i (snd (finishMCP h c i))"
  by (simp add: finishMCP_def sys_def continues_def split: sum.splits option.splits)

lemma continues_executeMCP: "continues i (snd (executeMCP h s m x i))"
proof -
  define j where "j = log i (''  '' @ u_arrow @ '' MCP: '' @ s @ ''.'' @ m)"
  have j: "continues i k = continues j k" for k
    by (simp add: j_def)
  show ?thesis
    unfolding executeMCP_def Let_def j_def [symmetric] j
    by (simp add: continues_sys_case continues_finishMCP split: option.splits)
qed

lemma continues_executeIncrementDecrement:
  "continues i (snd (executeIncrementDecrement h n op i))"
  by (simp add: executeIncrementDecrement_def continues_def split: option.splits val.splits)

lemma continues_executeStatement:
  "continues i (snd (executeStatement h stmt i))"
  "continues i (snd (executeStatements h stmts i))"
  "continues i (snd (executeIf h c cons alt i))"
  "continues i (snd (executeRepeat h count body i))"
  "continues i (snd (repeatLoop h j count body i))"
proof (induction h stmt i and h stmts i and h c cons alt i and h count body i and h j count body i
       rule: executeStatement_executeStatements_executeIf_executeRepeat_repeatLoop.induct)
  case (2 h instruction i)
  show ?case by (simp add: continues_executeAsk)
next
  case (5 h command i)
  show ?case by (simp add: continues_executeShell)
next
  case (6 h service m x i)
  show ?case by (simp add: continues_executeMCP)
next
  case (7 h name operator i)
  show ?case by (simp add: continues_executeIncrementDecrement)
next
  case (14 h stmt stmts i)
  obtain e s where r: "executeStatement h stmt i = (e, s)"
    by (cases "executeStatement h stmt i")
  with 14(1) have c: "continues i s" by simp
  show ?case
    using 14(2) [of e s] r c by (cases e) (auto intro: continues_trans)
next
  case (17 h j count body i)
  show ?case
  proof (cases "j < count")
    case False
    then show ?thesis by (simp add: repeatLoop.simps)
  next
    case True
    let ?m = "''  [Repeat '' @ showInt (j + 1) @ ''/'' @ showInt count @ '']''"
    obtain e s where r: "executeStatements h body (log i ?m) = (e, s)"
      by (cases "executeStatements h body (log i ?m)")
    with 17(1) [OF True] have c: "continues i s" by simp
    show ?thesis
      using 17(2) [OF True, of e s] r c True
      by (subst repeatLoop.simps) (cases e; auto intro: continues_trans)
  qed
qed simp_all


lemma asked_config:
  "asked h name stmt i x i' \<Longrightarrow> config i' = config i"
  "askedIn h name stmts i x i' \<Longrightarrow> config i' = config i"
  "askedFrom h name j count body i x i' \<Longrightarrow> config i' = config i"
proof (induction rule: asked_askedIn_askedFrom.inducts)
  case (tail stmt i i1 stmts x i')
  have "config (snd (executeStatement h stmt i)) = config i"
    by (rule config_executeStatement)
  with tail show ?case by simp
next
  case (rounds j count body i i1 x i')
  have "config (snd (executeStatements h body
           (log i (''  [Repeat '' @ showInt (j + 1) @ ''/'' @ showInt count @ '']'')))) = config i"
    by (simp add: config_executeStatement)
  then have "config i1 = config i"
    unfolding rounds(3) by simp
  with rounds show ?case by simp
qed simp_all

lemma asked_variables:
  "asked h name stmt i x i' \<Longrightarrow> variables i' name = variables i name"
  "askedIn h name stmts i x i' \<Longrightarrow> variables i' name = variables i name"
  "askedFrom h name j count body i x i' \<Longrightarrow> variables i' name = variables i name"
proof (induction rule: asked_askedIn_askedFrom.inducts)
  case (tail stmt i i1 stmts x i')
  have "variables (snd (executeStatement h stmt i)) name = variables i name"
    using tail(1) variables_untouched(1) [of name stmt h i] by blast
  with tail show ?case by simp
next
  case (rounds j count body i i1 x i')
  let ?i = "log i (''  [Repeat '' @ showInt (j + 1) @ ''/'' @ showInt count @ '']'')"
  have "variables (snd (executeStatements h body ?i)) name = variables ?i name"
    using rounds(2) variables_untouched(2) [of name body h ?i] by blast
  then have "variables i1 name = variables i name"
    unfolding rounds(3) by simp
  with rounds show ?case by simp
qed simp_all

lemma askedIn_Nil: "\<not> askedIn h name [] i x i'"
  by (auto elim: askedIn.cases)

lemma asked_call:
  "asked h name stmt i x i' \<Longrightarrow> \<not> dryRun i' \<Longrightarrow>
     \<exists>rest. syscalls (snd (executeStatement h stmt i))
       = syscalls i' @ Exec (claudeCLI i') (claudeArgs i' (buildPrompt h x (variables i'))) # rest"
  "askedIn h name stmts i x i' \<Longrightarrow> \<not> dryRun i' \<Longrightarrow>
     \<exists>rest. syscalls (snd (executeStatements h stmts i))
       = syscalls i' @ Exec (claudeCLI i') (claudeArgs i' (buildPrompt h x (variables i'))) # rest"
  "askedFrom h name j count body i x i' \<Longrightarrow> \<not> dryRun i' \<Longrightarrow>
     \<exists>rest. syscalls (snd (repeatLoop h j count body i))
       = syscalls i' @ Exec (claudeCLI i') (claudeArgs i' (buildPrompt h x (variables i'))) # rest"
proof (induction rule: asked_askedIn_askedFrom.inducts)
  case (ask x i)
  then show ?case
    using executeAsk_call(2) [of i h x] by simp
next
  case (consequence i c consequence x i' alternative)
  then show ?case by simp
next
  case (alternative i c alternative x i' consequence)
  from alternative(2) have "alternative \<noteq> []"
    using askedIn_Nil by blast
  with alternative show ?case by simp
next
  case (repeat count body i x i')
  then show ?case by simp
next
  case (head stmt i x i' stmts)
  let ?c = "Exec (claudeCLI i') (claudeArgs i' (buildPrompt h x (variables i')))"
  from head obtain rest where
    r: "syscalls (snd (executeStatement h stmt i)) = syscalls i' @ ?c # rest"
    by blast
  obtain e s where es: "executeStatement h stmt i = (e, s)"
    by (cases "executeStatement h stmt i")
  show ?case
  proof (cases e)
    case (Some err)
    with r es show ?thesis by simp
  next
    case None
    have "continues s (snd (executeStatements h stmts s))"
      by (rule continues_executeStatement)
    then obtain more where "syscalls (snd (executeStatements h stmts s)) = syscalls s @ more"
      unfolding continues_def by blast
    with r es None show ?thesis by simp
  qed
next
  case (tail stmt i i1 stmts x i')
  then show ?case by simp
next
  case (round j count body i x i')
  let ?c = "Exec (claudeCLI i') (claudeArgs i' (buildPrompt h x (variables i')))"
  let ?i = "log i (''  [Repeat '' @ showInt (j + 1) @ ''/'' @ showInt count @ '']'')"
  from round obtain rest where
    r: "syscalls (snd (executeStatements h body ?i)) = syscalls i' @ ?c # rest"
    by blast
  obtain e s where es: "executeStatements h body ?i = (e, s)"
    by (cases "executeStatements h body ?i")
  show ?case
  proof (cases e)
    case (Some err)
    with r es round(1) show ?thesis
      by (subst repeatLoop.simps) simp
  next
    case None
    have "continues s (snd (repeatLoop h (j + 1) count body s))"
      by (rule continues_executeStatement)
    then obtain more where "syscalls (snd (repeatLoop h (j + 1) count body s)) = syscalls s @ more"
      unfolding continues_def by blast
    with r es None round(1) show ?thesis
      by (subst repeatLoop.simps) simp
  qed
next
  case (rounds j count body i i1 x i')
  then show ?case
    by (subst repeatLoop.simps) simp
qed

lemma beforeHooks_collect:
  "beforeHooks (collect stmts i) = beforeHooks i @ concat (map beforeStatements stmts)"
proof (induction stmts arbitrary: i)
  case Nil
  show ?case by simp
next
  case (Cons s stmts)
  have "beforeHooks (collectStatement s i) = beforeHooks i @ beforeStatements s"
    by (cases s) simp_all
  with Cons show ?case by simp
qed

lemma afterHooks_collect:
  "afterHooks (collect stmts i) = afterHooks i @ concat (map afterStatements stmts)"
proof (induction stmts arbitrary: i)
  case Nil
  show ?case by simp
next
  case (Cons s stmts)
  have "afterHooks (collectStatement s i) = afterHooks i @ afterStatements s"
    by (cases s) simp_all
  with Cons show ?case by simp
qed

lemma continues_executeHooks: "continues i (snd (executeHooks h hooks i))"
proof (induction hooks arbitrary: i)
  case Nil
  show ?case by simp
next
  case (Cons x xs)
  have c: "continues i (snd (executeHook h x i))"
    by (cases x) (simp_all add: continues_executeShell continues_executeMCP)
  obtain e s where r: "executeHook h x i = (e, s)"
    by (cases "executeHook h x i")
  show ?case
    using Cons [of s] c r by (cases e) (auto intro: continues_trans)
qed

lemma continues_runAfterHooks: "continues i (snd (runAfterHooks h i))"
proof -
  let ?m = "rule3 @ '' Running Post-Hooks '' @ rule3"
  obtain e s where r: "executeHooks h (afterHooks i) (log (log i []) ?m) = (e, s)"
    by (cases "executeHooks h (afterHooks i) (log (log i []) ?m)")
  have "continues (log (log i []) ?m) (snd (executeHooks h (afterHooks i) (log (log i []) ?m)))"
    by (rule continues_executeHooks)
  then have "continues i s"
    unfolding r by simp
  then show ?thesis
    using r unfolding runAfterHooks_def by (cases e) simp_all
qed

lemma continues_Execute_main:
  assumes "runBeforeHooks h (banner h (collect stmts i0)) = (None, i2)"
  shows "continues (snd (executeStatements h stmts (log i2 stepsLine)))
           (snd (Execute h (Program stmts) i0))"
proof -
  obtain e3 i3 where r3: "executeStatements h stmts (log i2 stepsLine) = (e3, i3)"
    by (cases "executeStatements h stmts (log i2 stepsLine)")
  obtain e4 i4 where r4: "runAfterHooks h i3 = (e4, i4)"
    by (cases "runAfterHooks h i3")
  have "continues i3 (snd (runAfterHooks h i3))"
    by (rule continues_runAfterHooks)
  then have c: "continues i3 i4"
    unfolding r4 by simp
  show ?thesis
    unfolding Execute_andThen Program.sel assms stepsLine_def [symmetric]
    using c by (cases e3; cases e4) (simp_all add: andThen_def r3 r4)
qed

lemma skipWhitespace_none:
  "ch l \<noteq> CHR '' '' \<Longrightarrow> ch l \<noteq> CHR 0x09 \<Longrightarrow> ch l \<noteq> CHR 0x0D \<Longrightarrow> skipWhitespace l = l"
  by (subst skipWhitespace.simps) simp

lemma NextToken_stuck:
  assumes "NextToken l = (tok, l)"
  shows "tokens n l = replicate n tok"
  by (induction n) (simp_all add: assms)

lemma NextToken_bang:
  assumes "ch l = CHR ''!''" and "peekChar l \<noteq> CHR ''=''"
  shows "NextToken l = (\<lparr>Type = TOKEN_EOF, Literal = [], Line = line l, Column = column l\<rparr>, l)"
proof -
  have "skipWhitespace (skipComment (skipWhitespace l)) = l"
    using assms(1) by (simp add: skipWhitespace_none skipComment_def)
  then show ?thesis
    using assms by (simp add: NextToken_def Let_def)
qed

section \<open>Values of identifiers\<close>

text \<open>
  C7. \<^verbatim>\<open>evalValue\<close> on an \<open>Identifier\<close> returns what the variable map binds to its name, when
  the name is bound, and the name itself, as a string, when it is not. \<^verbatim>\<open>evalValue\<close> returns a
  value in both cases: it has no error result.
\<close>

theorem evalValue_identifier:
  "(variables i name = Some v \<longrightarrow> evalValue i (Identifier name) = v) \<and>
   (variables i name = None \<longrightarrow> evalValue i (Identifier name) = VString name)"
  by simp

theorem evalValue_identifier_witness:
  "evalValue (NewInterpreter\<lparr>variables := [''x'' \<mapsto> VNumber (5::int)]\<rparr>) (Identifier ''x'') = VNumber 5 \<and>
   evalValue (NewInterpreter\<lparr>variables := [''x'' \<mapsto> VNumber (5::int)]\<rparr>) (Identifier ''y'') = VString ''y''"
  using evalValue_identifier [of "NewInterpreter\<lparr>variables := [''x'' \<mapsto> VNumber (5::int)]\<rparr>" "''x''" "VNumber 5"]
        evalValue_identifier [of "NewInterpreter\<lparr>variables := [''x'' \<mapsto> VNumber (5::int)]\<rparr>" "''y''"]
  by simp

section \<open>Increment and decrement\<close>

text \<open>
  C6. On a variable bound to a number, \<^verbatim>\<open>name++\<close> rebinds it to that number plus one and
  \<^verbatim>\<open>name--\<close> to that number minus one (in \<^verbatim>\<open>float64\<close>). On a variable that is not bound, or
  is bound to a value that is not a number, the statement returns no error and leaves the
  interpreter as it was: no binding is made.
\<close>

theorem executeIncrementDecrement_numeric:
  "(variables i name = Some (VNumber num) \<longrightarrow>
      executeStatement h (IncrementDecrement name ''++'') i
        = (None, i\<lparr>variables := (variables i)(name \<mapsto> VNumber (f_add h num (f_one h)))\<rparr>) \<and>
      executeStatement h (IncrementDecrement name ''--'') i
        = (None, i\<lparr>variables := (variables i)(name \<mapsto> VNumber (f_sub h num (f_one h)))\<rparr>)) \<and>
   ((variables i name = None \<or> (\<exists>v. variables i name = Some v \<and> (\<forall>n. v \<noteq> VNumber n))) \<longrightarrow>
      executeStatement h (IncrementDecrement name operator) i = (None, i))"
  by (auto simp: executeIncrementDecrement_def split: option.splits val.splits)

theorem executeIncrementDecrement_numeric_witness:
  "executeStatement (demo_host []) (IncrementDecrement ''count'' ''++'')
       (NewInterpreter\<lparr>variables := [''count'' \<mapsto> VNumber 5]\<rparr>)
     = (None, NewInterpreter\<lparr>variables := [''count'' \<mapsto> VNumber 6]\<rparr>) \<and>
   executeStatement (demo_host []) (IncrementDecrement ''count'' ''--'')
       (NewInterpreter\<lparr>variables := [''count'' \<mapsto> VNumber 5]\<rparr>)
     = (None, NewInterpreter\<lparr>variables := [''count'' \<mapsto> VNumber 4]\<rparr>) \<and>
   executeStatement (demo_host []) (IncrementDecrement ''count'' ''++'') NewInterpreter
     = (None, NewInterpreter) \<and>
   executeStatement (demo_host []) (IncrementDecrement ''count'' ''++'')
       (NewInterpreter\<lparr>variables := [''count'' \<mapsto> VString ''5'']\<rparr>)
     = (None, NewInterpreter\<lparr>variables := [''count'' \<mapsto> VString ''5'']\<rparr>)"
  using executeIncrementDecrement_numeric [of "NewInterpreter\<lparr>variables := [''count'' \<mapsto> VNumber 5]\<rparr>" "''count''" 5 "demo_host []"]
        executeIncrementDecrement_numeric [of "NewInterpreter" "''count''" _ "demo_host []" "''++''"]
        executeIncrementDecrement_numeric [of "NewInterpreter\<lparr>variables := [''count'' \<mapsto> VString ''5'']\<rparr>" "''count''" _ "demo_host []" "''++''"]
  by (simp add: demo_host_def NewInterpreter_def)

section \<open>Repeat\<close>

text \<open>
  C5, as amended. A \<^verbatim>\<open>repeat\<close> with count \<open>count\<close> runs its rounds in the order
  \<open>0, ..., count - 1\<close>: a round writes its progress line and then executes the whole body, and
  the next round starts in the state that round left. With a count of 0 (or less) no round
  runs and the interpreter is unchanged. When no round returns an error, the loop returns no
  error and its final state is the state after exactly \<open>count\<close> rounds. When round \<open>k\<close> is the
  first that returns an error, the loop returns that error in the state that round left:
  rounds \<open>0, ..., k\<close> have run, and no round after \<open>k\<close> runs. The loop binds no variable: the
  state a round gets differs from the one the loop was in only by the progress line, so the
  variable map is the same. Observed on the calls: a \<^verbatim>\<open>repeat n\<close> of one \<^verbatim>\<open>ask\<close>, which
  cannot return an error, makes outside a dry run exactly \<open>n\<close> calls of the assistant, all
  with the same prompt.
\<close>

theorem executeRepeat_rounds:
  "executeStatement h (RepeatStatement count body) i
     = forEach (repeatRound h count body) [0..<nat count] i \<and>
   (count \<le> 0 \<longrightarrow> executeStatement h (RepeatStatement count body) i = (None, i)) \<and>
   ((\<forall>j < nat count. fst (repeatRound h count body j (afterRounds h count body j i)) = None) \<longrightarrow>
      executeStatement h (RepeatStatement count body) i
        = (None, afterRounds h count body (nat count) i)) \<and>
   (k < nat count \<and>
    (\<forall>j < k. fst (repeatRound h count body j (afterRounds h count body j i)) = None) \<and>
    fst (repeatRound h count body k (afterRounds h count body k i)) = Some err \<longrightarrow>
      executeStatement h (RepeatStatement count body) i
        = (Some err, snd (repeatRound h count body k (afterRounds h count body k i)))) \<and>
   variables (log i m) = variables i \<and>
   (\<not> dryRun i \<longrightarrow>
      fst (executeStatement h (RepeatStatement (int n) [AskStatement x]) i) = None \<and>
      syscalls (snd (executeStatement h (RepeatStatement (int n) [AskStatement x]) i))
        = syscalls i @ replicate n
            (Exec (claudeCLI i) (claudeArgs i (buildPrompt h x (variables i)))))"
proof (intro conjI impI)
  show "executeStatement h (RepeatStatement count body) i
     = forEach (repeatRound h count body) [0..<nat count] i"
    by (rule executeRepeat_forEach)
  show "executeStatement h (RepeatStatement count body) i = (None, i)" if "count \<le> 0"
    using that repeatLoop_forEach [of 0 h count body i] by simp
  show "executeStatement h (RepeatStatement count body) i
        = (None, afterRounds h count body (nat count) i)"
    if "\<forall>j < nat count. fst (repeatRound h count body j (afterRounds h count body j i)) = None"
    using that by (rule executeRepeat_all_succeed)
  show "executeStatement h (RepeatStatement count body) i
        = (Some err, snd (repeatRound h count body k (afterRounds h count body k i)))"
    if "k < nat count \<and>
    (\<forall>j < k. fst (repeatRound h count body j (afterRounds h count body j i)) = None) \<and>
    fst (repeatRound h count body k (afterRounds h count body k i)) = Some err"
    using that by (intro executeRepeat_first_failure) blast+
  show "variables (log i m) = variables i"
    by simp
  assume d: "\<not> dryRun i"
  show "fst (executeStatement h (RepeatStatement (int n) [AskStatement x]) i) = None"
    and "syscalls (snd (executeStatement h (RepeatStatement (int n) [AskStatement x]) i))
        = syscalls i @ replicate n
            (Exec (claudeCLI i) (claudeArgs i (buildPrompt h x (variables i))))"
    using forEach_ask [OF d, of h "int n" x "[0..<n]"]
          repeatLoop_forEach [of 0 h "int n" "[AskStatement x]" i]
    by simp_all
qed

theorem executeRepeat_rounds_witness:
  "executeStatement (demo_host []) (RepeatStatement 0 [AskStatement ''x'']) NewInterpreter
     = (None, NewInterpreter) \<and>
   executeStatement (demo_host []) (RepeatStatement 2 [AskStatement ''x'']) NewInterpreter
     = (None, afterRounds (demo_host []) 2 [AskStatement ''x''] 2 NewInterpreter) \<and>
   executeStatement (demo_host [Exec ''sh'' [''-c'', ''false'']])
       (RepeatStatement 3 [ShellCommand ''false'']) NewInterpreter
     = (Some (Errorf ''shell command failed'' (OSError ''exit status 1'')),
        snd (repeatRound (demo_host [Exec ''sh'' [''-c'', ''false'']]) 3 [ShellCommand ''false''] 0
               NewInterpreter)) \<and>
   fst (executeStatement (demo_host []) (RepeatStatement 3 [AskStatement ''x'']) NewInterpreter) = None \<and>
   syscalls (snd (executeStatement (demo_host []) (RepeatStatement 3 [AskStatement ''x'']) NewInterpreter))
     = [Exec ''claude'' (claudeArgs (NewInterpreter :: int Interpreter) (buildPrompt (demo_host []) ''x'' Map.empty)),
        Exec ''claude'' (claudeArgs (NewInterpreter :: int Interpreter) (buildPrompt (demo_host []) ''x'' Map.empty)),
        Exec ''claude'' (claudeArgs (NewInterpreter :: int Interpreter) (buildPrompt (demo_host []) ''x'' Map.empty))]"
proof -
  have d: "\<not> dryRun (NewInterpreter :: int Interpreter)"
    and v: "variables (NewInterpreter :: int Interpreter) = Map.empty"
    and c: "claudeCLI (NewInterpreter :: int Interpreter) = ''claude''"
    and s: "syscalls (NewInterpreter :: int Interpreter) = []"
    by (simp_all add: NewInterpreter_def)
  have r: "replicate 3 a = [a, a, a]" for a :: syscall
    by (simp add: numeral_3_eq_3)
  have zero: "executeStatement (demo_host []) (RepeatStatement 0 [AskStatement ''x'']) NewInterpreter
     = (None, NewInterpreter)"
    using executeRepeat_rounds [where h = "demo_host []" and count = 0
        and body = "[AskStatement ''x'']" and i = NewInterpreter, THEN conjunct2, THEN conjunct1]
    by simp
  have ok: "\<forall>j < nat 2. fst (repeatRound (demo_host []) 2 [AskStatement ''x''] j
              (afterRounds (demo_host []) 2 [AskStatement ''x''] j NewInterpreter)) = None"
  proof (intro allI impI)
    fix j :: nat
    obtain e s where r: "executeAsk (demo_host []) ''x''
        (log (afterRounds (demo_host []) 2 [AskStatement ''x''] j NewInterpreter)
           (''  [Repeat '' @ showInt (int j + 1) @ ''/'' @ showInt 2 @ '']'')) = (e, s)"
      by (cases "executeAsk (demo_host []) ''x''
        (log (afterRounds (demo_host []) 2 [AskStatement ''x''] j NewInterpreter)
           (''  [Repeat '' @ showInt (int j + 1) @ ''/'' @ showInt 2 @ '']''))")
    have "fst (executeAsk (demo_host []) ''x''
        (log (afterRounds (demo_host []) 2 [AskStatement ''x''] j NewInterpreter)
           (''  [Repeat '' @ showInt (int j + 1) @ ''/'' @ showInt 2 @ '']''))) = None"
      by (rule executeAsk_never_fails)
    then have "e = None"
      unfolding r by simp
    then show "fst (repeatRound (demo_host []) 2 [AskStatement ''x''] j
              (afterRounds (demo_host []) 2 [AskStatement ''x''] j NewInterpreter)) = None"
      unfolding repeatRound_def using r by simp
  qed
  have two: "executeStatement (demo_host []) (RepeatStatement 2 [AskStatement ''x'']) NewInterpreter
     = (None, afterRounds (demo_host []) 2 [AskStatement ''x''] (nat 2) NewInterpreter)"
    using executeRepeat_rounds [where h = "demo_host []" and count = 2
        and body = "[AskStatement ''x'']" and i = NewInterpreter,
        THEN conjunct2, THEN conjunct2, THEN conjunct1, THEN mp, OF ok] .
  have bad: "0 < nat 3 \<and>
      (\<forall>j < 0. fst (repeatRound (demo_host [Exec ''sh'' [''-c'', ''false'']]) 3 [ShellCommand ''false''] j
              (afterRounds (demo_host [Exec ''sh'' [''-c'', ''false'']]) 3 [ShellCommand ''false''] j
                 NewInterpreter)) = None) \<and>
      fst (repeatRound (demo_host [Exec ''sh'' [''-c'', ''false'']]) 3 [ShellCommand ''false''] 0
              (afterRounds (demo_host [Exec ''sh'' [''-c'', ''false'']]) 3 [ShellCommand ''false''] 0
                 NewInterpreter))
        = Some (Errorf ''shell command failed'' (OSError ''exit status 1''))"
    by (simp add: afterRounds_def repeatRound_def executeShell_def Let_def sys_def demo_host_def
          NewInterpreter_def log_def)
  have fail: "executeStatement (demo_host [Exec ''sh'' [''-c'', ''false'']])
       (RepeatStatement 3 [ShellCommand ''false'']) NewInterpreter
     = (Some (Errorf ''shell command failed'' (OSError ''exit status 1'')),
        snd (repeatRound (demo_host [Exec ''sh'' [''-c'', ''false'']]) 3 [ShellCommand ''false''] 0
               (afterRounds (demo_host [Exec ''sh'' [''-c'', ''false'']]) 3 [ShellCommand ''false''] 0
                  NewInterpreter)))"
    using executeRepeat_rounds [where h = "demo_host [Exec ''sh'' [''-c'', ''false'']]"
        and count = 3 and body = "[ShellCommand ''false'']" and i = NewInterpreter and k = 0,
        THEN conjunct2, THEN conjunct2, THEN conjunct2, THEN conjunct1, THEN mp, OF bad] .
  have three: "fst (executeStatement (demo_host []) (RepeatStatement (int 3) [AskStatement ''x''])
                 NewInterpreter) = None \<and>
      syscalls (snd (executeStatement (demo_host []) (RepeatStatement (int 3) [AskStatement ''x''])
                 NewInterpreter))
        = syscalls (NewInterpreter :: int Interpreter) @ replicate 3
            (Exec (claudeCLI (NewInterpreter :: int Interpreter))
               (claudeArgs (NewInterpreter :: int Interpreter)
                  (buildPrompt (demo_host []) ''x'' (variables (NewInterpreter :: int Interpreter)))))"
    using executeRepeat_rounds [where h = "demo_host []" and i = NewInterpreter and n = 3
        and x = "''x''", THEN conjunct2, THEN conjunct2, THEN conjunct2, THEN conjunct2,
        THEN conjunct2, THEN mp, OF d] .
  have a0: "afterRounds h count body 0 i = i" for h :: "int host" and count body i
    by (simp add: afterRounds_def)
  show ?thesis
    using zero two fail three unfolding v c s r a0 by simp
qed

text \<open>
  The claim C5 as it was stated gives every \<^verbatim>\<open>repeat\<close> exactly \<open>n\<close> runs of its body. In
  \<^verbatim>\<open>repeat 3 { run "false" }\<close>, where the shell command fails, the first round returns the error
  of the command and the loop returns it: the command has run once, not three times.
\<close>

theorem repeat_failing_body_counterexample:
  "fst (executeStatement (demo_host [Exec ''sh'' [''-c'', ''false'']])
          (RepeatStatement 3 [ShellCommand ''false'']) NewInterpreter)
     = Some (Errorf ''shell command failed'' (OSError ''exit status 1'')) \<and>
   syscalls (snd (executeStatement (demo_host [Exec ''sh'' [''-c'', ''false'']])
          (RepeatStatement 3 [ShellCommand ''false'']) NewInterpreter))
     = [Exec ''sh'' [''-c'', ''false'']]"
  by (simp add: repeatLoop.simps [of _ 0] executeShell_def Let_def sys_def demo_host_def
        NewInterpreter_def log_def)

section \<open>Nested assignments\<close>

text \<open>
  C10. \<^verbatim>\<open>executeStatement\<close> and \<^verbatim>\<open>executeHook\<close> return no error and leave the interpreter as
  it was on every \<open>Assignment\<close>. And an assignment nested in the consequence or the
  alternative of an \<^verbatim>\<open>if\<close>, in the body of a \<^verbatim>\<open>repeat\<close> or in a hook block, at any depth, has
  no effect on a run: removing all of them from a program (\<open>dropNested\<close> on each top-level
  statement) changes neither the error \<^verbatim>\<open>Execute\<close> returns, nor the variable map it ends with,
  nor the calls it makes.
\<close>

theorem nested_assignment_no_effect:
  "executeStatement h (Assignment name v) i = (None, i) \<and>
   executeHook h (Assignment name v) i = (None, i) \<and>
   fst (Execute h (Program (map dropNested p)) i0) = fst (Execute h (Program p) i0) \<and>
   variables (snd (Execute h (Program (map dropNested p)) i0))
     = variables (snd (Execute h (Program p) i0)) \<and>
   syscalls (snd (Execute h (Program (map dropNested p)) i0))
     = syscalls (snd (Execute h (Program p) i0))"
  using rel_prodD [OF Execute_dropNested [of h p i0]]
  by (simp add: simH_def sim_def)

section \<open>Conditions\<close>

text \<open>
  C2. With \<^verbatim>\<open>==\<close> and \<^verbatim>\<open>!=\<close>, \<^verbatim>\<open>evalCondition\<close> compares the two evaluated sides as the texts
  that \<^verbatim>\<open>%v\<close> gives them. With \<^verbatim>\<open><\<close>, \<^verbatim>\<open>>\<close>, \<^verbatim>\<open><=\<close>, \<^verbatim>\<open>>=\<close> it compares what \<^verbatim>\<open>toFloat\<close>
  makes of them as \<^verbatim>\<open>float64\<close>: a number is itself, a string is what \<^verbatim>\<open>strconv.ParseFloat\<close>
  returns for it (0 for a string that is not a number), \<open>true\<close> is 1 and \<open>false\<close> is 0.
  So, \<^verbatim>\<open>%v\<close> printing the number 5 as \<^verbatim>\<open>5\<close>, the condition \<^verbatim>\<open>"5" == 5\<close> holds; and,
  \<^verbatim>\<open>ParseFloat\<close> returning 0 for \<^verbatim>\<open>abc\<close> and 1 not being below 0, \<^verbatim>\<open>"abc" > 1\<close> does not.
\<close>

theorem evalCondition_coercion:
  "evalCondition h i (Condition l ''=='' r)
     = (Sprint h (evalValue i l) = Sprint h (evalValue i r)) \<and>
   evalCondition h i (Condition l ''!='' r)
     = (Sprint h (evalValue i l) \<noteq> Sprint h (evalValue i r)) \<and>
   evalCondition h i (Condition l ''<'' r)
     = f_lt h (toFloat h (evalValue i l)) (toFloat h (evalValue i r)) \<and>
   evalCondition h i (Condition l ''>'' r)
     = f_lt h (toFloat h (evalValue i r)) (toFloat h (evalValue i l)) \<and>
   evalCondition h i (Condition l ''<='' r)
     = f_le h (toFloat h (evalValue i l)) (toFloat h (evalValue i r)) \<and>
   evalCondition h i (Condition l ''>='' r)
     = f_le h (toFloat h (evalValue i r)) (toFloat h (evalValue i l)) \<and>
   toFloat h (VNumber x) = x \<and>
   toFloat h (VString s) = fst (ParseFloat h s) \<and>
   toFloat h (VBool True) = f_one h \<and>
   toFloat h (VBool False) = f_zero h \<and>
   (FormatFloat h five = ''5'' \<longrightarrow>
      evalCondition h i (Condition (StringLiteral ''5'') ''=='' (NumberLiteral five))) \<and>
   (fst (ParseFloat h ''abc'') = f_zero h \<and> \<not> f_lt h one (f_zero h) \<longrightarrow>
      \<not> evalCondition h i (Condition (StringLiteral ''abc'') ''>'' (NumberLiteral one)))"
  by (simp add: evalCondition_def)

theorem evalCondition_coercion_witness:
  "evalCondition (demo_host []) NewInterpreter
     (Condition (StringLiteral ''5'') ''=='' (NumberLiteral 5)) \<and>
   \<not> evalCondition (demo_host []) NewInterpreter
     (Condition (StringLiteral ''abc'') ''>'' (NumberLiteral 1))"
proof -
  have f: "FormatFloat (demo_host []) 5 = ''5''"
    by (simp add: demo_host_def showInt_def showNat.simps)
  have p: "fst (ParseFloat (demo_host []) ''abc'') = f_zero (demo_host [])
           \<and> \<not> f_lt (demo_host []) 1 (f_zero (demo_host []))"
    by (simp add: demo_host_def demo_ParseFloat_def isDigit_def IsDigit_def)
  note t = evalCondition_coercion [where h = "demo_host []" and i = NewInterpreter
      and five = 5 and one = 1]
  from t f have a: "evalCondition (demo_host []) NewInterpreter
     (Condition (StringLiteral ''5'') ''=='' (NumberLiteral 5))"
    by blast
  from t p have b: "\<not> evalCondition (demo_host []) NewInterpreter
     (Condition (StringLiteral ''abc'') ''>'' (NumberLiteral 1))"
    by blast
  from a b show ?thesis ..
qed

section \<open>The call fs.write\<close>

text \<open>
  C8, as amended. Outside a dry run, when the argument of \<^verbatim>\<open>fs.write\<close> decodes as a JSON object
  of strings with a key \<^verbatim>\<open>path\<close>, \<^verbatim>\<open>os.WriteFile\<close> is called once, with that path, with the
  value of the key \<^verbatim>\<open>content\<close> (the empty content when that key is missing) and with mode
  \<^verbatim>\<open>0644\<close>; the statement returns no error when the write succeeds, and the error
  \<^verbatim>\<open>fs.write failed\<close> when it fails. When the argument does not decode, or decodes without a
  key \<^verbatim>\<open>path\<close>, no call is made and no error is returned.
\<close>

theorem fs_write:
  "(\<not> dryRun i \<and> json_Unmarshal h arg = Some args \<and> args ''path'' = Some path \<and>
    os_call h (syscalls i)
      (WriteFile path (case args ''content'' of Some c \<Rightarrow> c | None \<Rightarrow> []) 420) = Inr out
    \<longrightarrow> fst (executeStatement h (MCPCall ''fs'' ''write'' arg) i) = None \<and>
        syscalls (snd (executeStatement h (MCPCall ''fs'' ''write'' arg) i))
          = syscalls i
            @ [WriteFile path (case args ''content'' of Some c \<Rightarrow> c | None \<Rightarrow> []) 420]) \<and>
   (\<not> dryRun i \<and> json_Unmarshal h arg = Some args \<and> args ''path'' = Some path \<and>
    os_call h (syscalls i)
      (WriteFile path (case args ''content'' of Some c \<Rightarrow> c | None \<Rightarrow> []) 420) = Inl err
    \<longrightarrow> fst (executeStatement h (MCPCall ''fs'' ''write'' arg) i)
          = Some (Errorf ''fs.write failed'' err)) \<and>
   (json_Unmarshal h arg = None \<or> (json_Unmarshal h arg = Some args \<and> args ''path'' = None)
    \<longrightarrow> fst (executeStatement h (MCPCall ''fs'' ''write'' arg) i) = None \<and>
        syscalls (snd (executeStatement h (MCPCall ''fs'' ''write'' arg) i)) = syscalls i)"
  by (auto simp add: executeMCP_def finishMCP_def sys_def Let_def log_def)

theorem fs_write_witness:
  "fst (executeStatement (demo_host [])
          (MCPCall ''fs'' ''write'' ''{\"path\":\"a.txt\",\"content\":\"hi\"}'') NewInterpreter) = None \<and>
   syscalls (snd (executeStatement (demo_host [])
          (MCPCall ''fs'' ''write'' ''{\"path\":\"a.txt\",\"content\":\"hi\"}'') NewInterpreter))
     = [WriteFile ''a.txt'' ''hi'' 420] \<and>
   fst (executeStatement (demo_host [WriteFile ''a.txt'' ''hi'' 420])
          (MCPCall ''fs'' ''write'' ''{\"path\":\"a.txt\",\"content\":\"hi\"}'') NewInterpreter)
     = Some (Errorf ''fs.write failed'' (OSError ''exit status 1'')) \<and>
   fst (executeStatement (demo_host [])
          (MCPCall ''fs'' ''write'' ''{\"path\":'') NewInterpreter) = None \<and>
   syscalls (snd (executeStatement (demo_host [])
          (MCPCall ''fs'' ''write'' ''{\"path\":'') NewInterpreter)) = []"
proof -
  define m where "m = [''path'' \<mapsto> ''a.txt'', ''content'' \<mapsto> ''hi'']"
  have j: "json_Unmarshal (demo_host failing) ''{\"path\":\"a.txt\",\"content\":\"hi\"}'' = Some m"
    for failing
    by (simp add: demo_host_def demo_json_def m_def)
  have m: "m ''path'' = Some ''a.txt''" "m ''content'' = Some ''hi''"
    by (simp_all add: m_def)
  have bad: "json_Unmarshal (demo_host []) ''{\"path\":'' = None"
    by (simp add: demo_host_def demo_json_def)
  have d: "\<not> dryRun (NewInterpreter :: int Interpreter)"
    and s: "syscalls (NewInterpreter :: int Interpreter) = []"
    by (simp_all add: NewInterpreter_def)
  have ok: "os_call (demo_host []) [] (WriteFile ''a.txt'' ''hi'' 420) = Inr []"
    by (simp add: demo_host_def)
  have ko: "os_call (demo_host [WriteFile ''a.txt'' ''hi'' 420]) [] (WriteFile ''a.txt'' ''hi'' 420)
              = Inl (OSError ''exit status 1'')"
    by (simp add: demo_host_def)
  note t1 = fs_write [where h = "demo_host []" and i = NewInterpreter and args = m
      and arg = "''{\"path\":\"a.txt\",\"content\":\"hi\"}''" and path = "''a.txt''" and out = "[]",
      THEN conjunct1, THEN mp]
  note t2 = fs_write [where h = "demo_host [WriteFile ''a.txt'' ''hi'' 420]"
      and i = NewInterpreter and args = m
      and arg = "''{\"path\":\"a.txt\",\"content\":\"hi\"}''" and path = "''a.txt''"
      and err = "OSError ''exit status 1''",
      THEN conjunct2, THEN conjunct1, THEN mp]
  note t3 = fs_write [where h = "demo_host []" and i = NewInterpreter
      and arg = "''{\"path\":''", THEN conjunct2, THEN conjunct2, THEN mp]
  have a: "fst (executeStatement (demo_host [])
          (MCPCall ''fs'' ''write'' ''{\"path\":\"a.txt\",\"content\":\"hi\"}'') NewInterpreter) = None \<and>
     syscalls (snd (executeStatement (demo_host [])
          (MCPCall ''fs'' ''write'' ''{\"path\":\"a.txt\",\"content\":\"hi\"}'') NewInterpreter))
       = [WriteFile ''a.txt'' ''hi'' 420]"
    using t1 d j m ok by (simp add: s)
  have b: "fst (executeStatement (demo_host [WriteFile ''a.txt'' ''hi'' 420])
          (MCPCall ''fs'' ''write'' ''{\"path\":\"a.txt\",\"content\":\"hi\"}'') NewInterpreter)
     = Some (Errorf ''fs.write failed'' (OSError ''exit status 1''))"
    using t2 d j m ko by (simp add: s)
  have c: "fst (executeStatement (demo_host [])
          (MCPCall ''fs'' ''write'' ''{\"path\":'') NewInterpreter) = None \<and>
     syscalls (snd (executeStatement (demo_host [])
          (MCPCall ''fs'' ''write'' ''{\"path\":'') NewInterpreter)) = []"
    using t3 bad by (simp add: s)
  from a b c show ?thesis
    by blast
qed

text \<open>
  The claim C8 as it was stated has no file written when a required key is missing. With the
  argument \<^verbatim>\<open>{"path":"a.txt"}\<close>, which has no \<^verbatim>\<open>content\<close>, the file \<^verbatim>\<open>a.txt\<close> is written, empty.
\<close>

theorem fs_write_missing_content_counterexample:
  "json_Unmarshal (demo_host []) ''{\"path\":\"a.txt\"}'' = Some [''path'' \<mapsto> ''a.txt''] \<and>
   fst (executeStatement (demo_host []) (MCPCall ''fs'' ''write'' ''{\"path\":\"a.txt\"}'')
          NewInterpreter) = None \<and>
   syscalls (snd (executeStatement (demo_host []) (MCPCall ''fs'' ''write'' ''{\"path\":\"a.txt\"}'')
          NewInterpreter)) = [WriteFile ''a.txt'' [] 420]"
  by (simp add: executeMCP_def finishMCP_def sys_def Let_def log_def NewInterpreter_def
        demo_host_def demo_json_def)

section \<open>Failures of hooks and of the assistant\<close>



section \<open>The collection pass\<close>




section \<open>A bare exclamation mark\<close>

text \<open>
  C9, as amended. When the lexer stands on a \<^verbatim>\<open>!\<close> that no \<^verbatim>\<open>=\<close> follows, \<^verbatim>\<open>NextToken\<close> returns
  the token it started with, of type \<^verbatim>\<open>TOKEN_EOF\<close> and with an empty literal, and does not read
  past the \<^verbatim>\<open>!\<close>: the lexer is left as it was. So every later call returns that token again,
  and the tokens of the input end there, whatever follows the \<^verbatim>\<open>!\<close>. The same holds when
  blanks or a comment stand before the \<^verbatim>\<open>!\<close>: the call skips them and stops on it.
\<close>

theorem bare_bang_ends_tokens:
  "(ch l = CHR ''!'' \<and> peekChar l \<noteq> CHR ''='' \<longrightarrow>
      NextToken l = (\<lparr>Type = TOKEN_EOF, Literal = [], Line = line l, Column = column l\<rparr>, l) \<and>
      tokens n l = replicate n \<lparr>Type = TOKEN_EOF, Literal = [], Line = line l, Column = column l\<rparr>) \<and>
   (ch (skipWhitespace (skipComment (skipWhitespace l0))) = CHR ''!'' \<and>
    peekChar (skipWhitespace (skipComment (skipWhitespace l0))) \<noteq> CHR ''='' \<longrightarrow>
      snd (NextToken l0) = skipWhitespace (skipComment (skipWhitespace l0)) \<and>
      Type (fst (NextToken l0)) = TOKEN_EOF \<and> Literal (fst (NextToken l0)) = [] \<and>
      tokens (Suc n) l0 = replicate (Suc n) (fst (NextToken l0)))"
proof (intro conjI impI)
  assume a: "ch l = CHR ''!'' \<and> peekChar l \<noteq> CHR ''=''"
  then show b: "NextToken l
      = (\<lparr>Type = TOKEN_EOF, Literal = [], Line = line l, Column = column l\<rparr>, l)"
    by (simp add: NextToken_bang)
  then show "tokens n l
      = replicate n \<lparr>Type = TOKEN_EOF, Literal = [], Line = line l, Column = column l\<rparr>"
    by (rule NextToken_stuck)
next
  let ?l = "skipWhitespace (skipComment (skipWhitespace l0))"
  assume a: "ch ?l = CHR ''!'' \<and> peekChar ?l \<noteq> CHR ''=''"
  then have n0: "NextToken l0
      = (\<lparr>Type = TOKEN_EOF, Literal = [], Line = line ?l, Column = column ?l\<rparr>, ?l)"
    by (simp add: NextToken_def Let_def)
  from a have n1: "NextToken ?l
      = (\<lparr>Type = TOKEN_EOF, Literal = [], Line = line ?l, Column = column ?l\<rparr>, ?l)"
    by (simp add: NextToken_bang)
  show "snd (NextToken l0) = ?l" "Type (fst (NextToken l0)) = TOKEN_EOF"
    "Literal (fst (NextToken l0)) = []"
    by (simp_all add: n0)
  show "tokens (Suc n) l0 = replicate (Suc n) (fst (NextToken l0))"
    using NextToken_stuck [OF n1, of n] by (simp add: n0)
qed

theorem bare_bang_ends_tokens_witness:
  "NextToken (NewLexer ''!x'')
     = (\<lparr>Type = TOKEN_EOF, Literal = [], Line = 1, Column = 1\<rparr>, NewLexer ''!x'') \<and>
   tokens 2 (NewLexer ''!x'')
     = [\<lparr>Type = TOKEN_EOF, Literal = [], Line = 1, Column = 1\<rparr>,
        \<lparr>Type = TOKEN_EOF, Literal = [], Line = 1, Column = 1\<rparr>] \<and>
   tokens 2 (NewLexer '' !x'')
     = [\<lparr>Type = TOKEN_EOF, Literal = [], Line = 1, Column = 2\<rparr>,
        \<lparr>Type = TOKEN_EOF, Literal = [], Line = 1, Column = 2\<rparr>]"
proof -
  have l: "ch (NewLexer ''!x'') = CHR ''!'' \<and> peekChar (NewLexer ''!x'') \<noteq> CHR ''=''"
    by (simp add: NewLexer_def readChar_def Let_def peekChar_def)
  have p: "line (NewLexer ''!x'') = 1" "column (NewLexer ''!x'') = 1"
    by (simp_all add: NewLexer_def readChar_def Let_def)
  have s: "skipWhitespace (skipComment (skipWhitespace (NewLexer '' !x'')))
      = \<lparr>input = '' !x'', pos = 1, readPos = 2, ch = CHR ''!'', line = 1, column = 2\<rparr>"
    by (simp add: NewLexer_def readChar_def Let_def skipWhitespace.simps skipComment_def)
  have l0: "ch (skipWhitespace (skipComment (skipWhitespace (NewLexer '' !x'')))) = CHR ''!'' \<and>
      peekChar (skipWhitespace (skipComment (skipWhitespace (NewLexer '' !x'')))) \<noteq> CHR ''=''"
    unfolding s by (simp add: peekChar_def)
  have n0: "NextToken (NewLexer '' !x'')
      = (\<lparr>Type = TOKEN_EOF, Literal = [], Line = 1, Column = 2\<rparr>,
         \<lparr>input = '' !x'', pos = 1, readPos = 2, ch = CHR ''!'', line = 1, column = 2\<rparr>)"
    unfolding NextToken_def Let_def s by (simp add: peekChar_def)
  from bare_bang_ends_tokens [of "NewLexer ''!x''" 2, THEN conjunct1, THEN mp, OF l]
  have one: "NextToken (NewLexer ''!x'')
     = (\<lparr>Type = TOKEN_EOF, Literal = [], Line = 1, Column = 1\<rparr>, NewLexer ''!x'')"
    and two: "tokens 2 (NewLexer ''!x'')
     = replicate 2 \<lparr>Type = TOKEN_EOF, Literal = [], Line = 1, Column = 1\<rparr>"
    unfolding p by simp_all
  from bare_bang_ends_tokens [where ?l0.0 = "NewLexer '' !x''" and n = 1, THEN conjunct2,
      THEN mp, OF l0]
  have three: "tokens (Suc 1) (NewLexer '' !x'')
      = replicate (Suc 1) (fst (NextToken (NewLexer '' !x'')))"
    by blast
  have r: "replicate 2 a = [a, a]" "replicate (Suc 1) a = [a, a]" "Suc 1 = 2" for a :: Token
    by (simp_all add: numeral_2_eq_2)
  show ?thesis
    using one two three unfolding r n0 by simp
qed

text \<open>
  The claim C9 as it was stated lets the lexer go on after the \<^verbatim>\<open>!\<close>. On the input
  \<^verbatim>\<open>! ask "x"\<close> the first call of \<^verbatim>\<open>NextToken\<close> returns a token of type \<^verbatim>\<open>TOKEN_EOF\<close> and leaves
  the lexer on the \<^verbatim>\<open>!\<close>, at position 0; the next calls do the same, and \<^verbatim>\<open>ask\<close> is never read.
\<close>

theorem bare_bang_counterexample:
  "NextToken (NewLexer (''! ask '' @ [CHR 0x22] @ ''x'' @ [CHR 0x22]))
     = (\<lparr>Type = TOKEN_EOF, Literal = [], Line = 1, Column = 1\<rparr>,
        \<lparr>input = ''! ask '' @ [CHR 0x22] @ ''x'' @ [CHR 0x22], pos = 0, readPos = 1,
           ch = CHR ''!'', line = 1, column = 1\<rparr>) \<and>
   map Type (tokens 3 (NewLexer (''! ask '' @ [CHR 0x22] @ ''x'' @ [CHR 0x22])))
     = [TOKEN_EOF, TOKEN_EOF, TOKEN_EOF] \<and>
   map Type (tokens 3 (NewLexer (''ask '' @ [CHR 0x22] @ ''x'' @ [CHR 0x22])))
     = [TOKEN_ASK, TOKEN_STRING, TOKEN_EOF]"
  by code_simp

end
